theory Spec2Isabelle
  imports Main "HOL-Library.Multiset"
begin

section \<open>Data model of examples/summarization/utils.py\<close>

text \<open>
  Exceptions of the Python code are values: every function that can raise returns
  \<open>py_error + 'a\<close>, with \<open>Inl\<close> for the exception.
\<close>

datatype py_error =
  ValueError | IndexError | FileNotFoundError | UnpicklingError
  | UnicodeDecodeError | RuntimeError | TokenizerError

text \<open>
  A tensor of token ids or mask bits is a list of rows. What the tokenizer returns for one
  line is a dictionary from field names (\<open>input_ids\<close>, \<open>attention_mask\<close>, ...) to
  tensors of shape \<open>[1, L]\<close>; \<open>__getitem__\<close> reads it with string subscripts. The
  dictionary is an association list, and Python's \<open>len\<close> of a dictionary is the number of
  its keys.
\<close>

type_synonym tensor = "int list list"
type_synonym encoding = "(string \<times> tensor) list"

definition dict_len :: "encoding \<Rightarrow> nat" where
  "dict_len d = length (remdups (map fst d))"

section \<open>SortishSampler\<close>

record sampler =
  data_source :: "encoding list"
  bs :: int

text \<open>\<open>key(i) = len(self.data_source[i])\<close>\<close>

definition key :: "sampler \<Rightarrow> nat \<Rightarrow> nat" where
  "key s i = dict_len (data_source s ! i)"

text \<open>
  \<open>[xs[i : i + sz] for i in range(0, len(xs), sz)]\<close> for a positive step: the range has
  \<open>\<lceil>len(xs) / sz\<rceil>\<close> elements \<open>0, sz, 2 * sz, ...\<close>.
\<close>

definition chunked :: "nat \<Rightarrow> 'a list \<Rightarrow> 'a list list" where
  "chunked sz xs =
     map (\<lambda>k. take sz (drop (k * sz) xs)) [0..<(length xs + sz - 1) div sz]"

text \<open>
  \<open>sorted(s, key=f, reverse=True)\<close>: Python reverses, sorts stably, and reverses again,
  so equal keys keep the order they had in \<open>s\<close>.
\<close>

definition sorted_reverse :: "('a \<Rightarrow> nat) \<Rightarrow> 'a list \<Rightarrow> 'a list" where
  "sorted_reverse f xs = rev (sort_key f (rev xs))"

text \<open>\<open>np.argmax\<close>: the index of the first maximum; it raises on an empty sequence.\<close>

definition argmax :: "nat list \<Rightarrow> py_error + nat" where
  "argmax xs =
     (if xs = [] then Inl ValueError
      else Inr (length (takeWhile (\<lambda>x. x < Max (set xs)) xs)))"

text \<open>\<open>np.concatenate\<close> raises on an empty sequence of arrays.\<close>

definition np_concatenate :: "'a list list \<Rightarrow> py_error + 'a list" where
  "np_concatenate xss = (if xss = [] then Inl ValueError else Inr (concat xss))"

text \<open>
  \<open>SortishSampler.__iter__\<close>. The two random draws are arguments: \<open>idxs\<close> is the result
  of \<open>np.random.permutation(len(self.data_source))\<close> and \<open>shuffle\<close> is what
  \<open>np.random.permutation\<close> does to the list of the remaining batches.
  \<^item> \<open>range(0, n, 0)\<close> raises ValueError; a negative step gives an empty range.
  \<^item> \<open>self.data_source[i]\<close> raises IndexError for an index that is out of range; the
    keys are computed while the chunks are sorted.
\<close>

definition sortish_iter ::
  "sampler \<Rightarrow> nat list \<Rightarrow> (nat list list \<Rightarrow> nat list list) \<Rightarrow> py_error + nat list" where
  "sortish_iter s idxs shuffle =
     (let sz = bs s * 50 in
      if sz = 0 then Inl ValueError
      else
        let ck_idx = (if sz < 0 then [] else chunked (nat sz) idxs) in
        if ck_idx \<noteq> [] \<and> list_ex (\<lambda>i. length (data_source s) \<le> i) idxs then Inl IndexError
        else
          case np_concatenate (map (sorted_reverse (key s)) ck_idx) of
            Inl e \<Rightarrow> Inl e
          | Inr sort_idx \<Rightarrow>
              let sz = bs s;
                  ck_idx = chunked (nat sz) sort_idx
              in case argmax (map (\<lambda>ck. key s (hd ck)) ck_idx) of
                   Inl e \<Rightarrow> Inl e
                 | Inr max_ck \<Rightarrow>
                     let ck_idx =
                           list_update (list_update ck_idx 0 (ck_idx ! max_ck)) max_ck
                             (ck_idx ! 0);
                         sort_idx =
                           (if length ck_idx > 1 then concat (shuffle (tl ck_idx)) else [])
                     in Inr (ck_idx ! 0 @ sort_idx))"

text \<open>Descending order of the key, as \<open>reverse=True\<close> produces it.\<close>

definition descending :: "('a \<Rightarrow> nat) \<Rightarrow> 'a list \<Rightarrow> bool" where
  "descending f xs = sorted_wrt (\<lambda>a b. f b \<le> f a) xs"

text \<open>
  The intermediate values of \<open>__iter__\<close> for a positive batch size: \<open>sort_idx\<close> after
  the chunks are sorted, the candidate batches cut from it, and the exchange of the batch
  at \<open>max_ck\<close> with the first one.
\<close>

definition sort_idx_of :: "sampler \<Rightarrow> nat list \<Rightarrow> nat list" where
  "sort_idx_of s idxs =
     concat (map (sorted_reverse (key s)) (chunked (50 * nat (bs s)) idxs))"

definition candidate_batches :: "sampler \<Rightarrow> nat list \<Rightarrow> nat list list" where
  "candidate_batches s idxs = chunked (nat (bs s)) (sort_idx_of s idxs)"

definition swap_first :: "'a list \<Rightarrow> nat \<Rightarrow> 'a list" where
  "swap_first cks m = list_update (list_update cks 0 (cks ! m)) m (cks ! 0)"

text \<open>Two small data sources used to run the sampler on concrete inputs.\<close>

definition demo_source :: "encoding list" where
  "demo_source =
     [[(''input_ids'', [[5, 6, 7, 1, 1]]), (''attention_mask'', [[1, 1, 1, 0, 0]])],
      [(''input_ids'', [[5, 6, 7, 8, 9]]), (''attention_mask'', [[1, 1, 1, 1, 1]])],
      [(''input_ids'', [[4, 1, 1, 1, 1]]), (''attention_mask'', [[1, 0, 0, 0, 0]])]]"

definition mixed_source :: "encoding list" where
  "mixed_source =
     [[(''input_ids'', [[5, 6, 1]])],
      [(''input_ids'', [[5, 6, 7]]), (''attention_mask'', [[1, 1, 1]]),
       (''token_type_ids'', [[0, 0, 0]])],
      [(''input_ids'', [[4, 1, 1]]), (''attention_mask'', [[1, 0, 0]])]]"

section \<open>SummarizationDataset\<close>

record dataset =
  source :: "encoding list"
  target :: "encoding list"
  max_source_length :: int
  max_target_length :: int

text \<open>The class attribute \<open>pad_token_id = 1\<close>; no instance overrides it.\<close>

definition pad_token_id :: int where
  "pad_token_id = 1"

text \<open>The slice \<open>xs[:n]\<close>: a negative bound counts from the end.\<close>

definition slice_to :: "'a list \<Rightarrow> int \<Rightarrow> 'a list" where
  "slice_to xs n = (if 0 \<le> n then take (nat n) xs else take (nat (int (length xs) + n)) xs)"

text \<open>\<open>SummarizationDataset.__init__\<close>\<close>

definition dataset_init ::
  "encoding list \<Rightarrow> encoding list \<Rightarrow> int \<Rightarrow> int \<Rightarrow> int option \<Rightarrow> dataset" where
  "dataset_init src tgt max_src max_tgt n_obs =
     (case n_obs of
        None \<Rightarrow>
          \<lparr>source = src, target = tgt,
           max_source_length = max_src, max_target_length = max_tgt\<rparr>
      | Some n \<Rightarrow>
          \<lparr>source = slice_to src n, target = slice_to tgt n,
           max_source_length = max_src, max_target_length = max_tgt\<rparr>)"

text \<open>\<open>SummarizationDataset.__len__\<close>\<close>

definition dataset_len :: "dataset \<Rightarrow> nat" where
  "dataset_len ds = length (source ds)"

text \<open>\<open>src_lens\<close> and \<open>tgt_lens\<close>: \<open>lmap(len, self.source)\<close>, \<open>lmap(len, self.target)\<close>.\<close>

definition src_lens :: "dataset \<Rightarrow> nat list" where
  "src_lens ds = map dict_len (source ds)"

definition tgt_lens :: "dataset \<Rightarrow> nat list" where
  "tgt_lens ds = map dict_len (target ds)"

text \<open>\<open>make_sortish_sampler\<close>: the sampler's data source is the list of source encodings.\<close>

definition make_sortish_sampler :: "dataset \<Rightarrow> int \<Rightarrow> sampler" where
  "make_sortish_sampler ds batch_size = \<lparr>data_source = source ds, bs = batch_size\<rparr>"

text \<open>
  Two source examples that were tokenized without padding: three tokens and five tokens.
\<close>

definition ragged_source :: "encoding list" where
  "ragged_source =
     [[(''input_ids'', [[5, 6, 7]]), (''attention_mask'', [[1, 1, 1]])],
      [(''input_ids'', [[5, 6, 7, 8, 9]]), (''attention_mask'', [[1, 1, 1, 1, 1]])]]"

text \<open>
  What \<open>__getitem__\<close> returns, and what \<open>collate_fn\<close> receives in a list: three tensors
  of one dimension (the \<open>[1, L]\<close> tensors of the encodings, squeezed).
\<close>

record item =
  input_ids :: "int list"
  attention_mask :: "int list"
  decoder_input_ids :: "int list"

text \<open>The dictionary of batched tensors that \<open>collate_fn\<close> returns.\<close>

record batch =
  batched_input_ids :: tensor
  batched_attention_mask :: tensor
  batched_decoder_input_ids :: tensor

text \<open>
  \<open>torch.stack\<close> of one-dimensional tensors: it raises on an empty list and on tensors of
  different sizes.
\<close>

definition torch_stack :: "int list list \<Rightarrow> py_error + tensor" where
  "torch_stack ts =
     (case ts of
        [] \<Rightarrow> Inl RuntimeError
      | t # rest \<Rightarrow>
          if list_all (\<lambda>u. length u = length t) rest then Inr ts else Inl RuntimeError)"

text \<open>
  Modelled from the spec: \<open>trim_batch\<close> is imported from
  \<open>transformers.tokenization_utils\<close>, which is not among the sources. The spec: a batch
  is "trimmed of trailing padding columns shared across the batch"; the collation "trims
  every sequence in the batch down to the minimum length that still fits all non-padding
  content, using a shared pad-token identifier"; and trim is "removing trailing shared
  padding columns from a batch down to the longest real (non-pad) content length present".
  \<open>content_width\<close> is the length of a row without its trailing pad tokens and
  \<open>keep_width\<close> the longest such length in the batch.
\<close>

definition content_width :: "int \<Rightarrow> int list \<Rightarrow> nat" where
  "content_width pad row = length (dropWhile (\<lambda>x. x = pad) (rev row))"

definition keep_width :: "int \<Rightarrow> tensor \<Rightarrow> nat" where
  "keep_width pad rows = foldr (\<lambda>row w. max (content_width pad row) w) rows 0"

text \<open>
  Modelled from the spec: \<open>trim_batch(input_ids, pad_token_id)\<close>, see \<open>content_width\<close>.
\<close>

definition trim_batch :: "tensor \<Rightarrow> int \<Rightarrow> tensor" where
  "trim_batch ids pad = map (take (keep_width pad ids)) ids"

text \<open>
  Modelled from the spec: \<open>trim_batch(input_ids, pad_token_id, attention_mask=mask)\<close>;
  the mask loses the same columns as the token ids.
\<close>

definition trim_batch_mask :: "tensor \<Rightarrow> int \<Rightarrow> tensor \<Rightarrow> tensor \<times> tensor" where
  "trim_batch_mask ids pad attn =
     (map (take (keep_width pad ids)) ids, map (take (keep_width pad ids)) attn)"

text \<open>\<open>SummarizationDataset.trim_seq2seq_batch\<close> (a static method)\<close>

definition trim_seq2seq_batch :: "batch \<Rightarrow> int \<Rightarrow> tensor \<times> tensor \<times> tensor" where
  "trim_seq2seq_batch b pad =
     (let y = trim_batch (batched_decoder_input_ids b) pad;
          (source_ids, source_mask) =
             trim_batch_mask (batched_input_ids b) pad (batched_attention_mask b)
      in (source_ids, source_mask, y))"

text \<open>\<open>SummarizationDataset.collate_fn\<close>\<close>

definition collate_fn :: "dataset \<Rightarrow> item list \<Rightarrow> py_error + batch" where
  "collate_fn self items =
     (case torch_stack (map input_ids items) of
        Inl e \<Rightarrow> Inl e
      | Inr ids \<Rightarrow>
          (case torch_stack (map attention_mask items) of
             Inl e \<Rightarrow> Inl e
           | Inr masks \<Rightarrow>
               (case torch_stack (map decoder_input_ids items) of
                  Inl e \<Rightarrow> Inl e
                | Inr target_ids \<Rightarrow>
                    let pad = pad_token_id;
                        y = trim_batch target_ids pad;
                        (source_ids, source_mask) = trim_batch_mask ids pad masks
                    in Inr \<lparr>batched_input_ids = source_ids,
                            batched_attention_mask = source_mask,
                            batched_decoder_input_ids = y\<rparr>)))"

text \<open>
  Two items of 5 and 8 real tokens padded to 20 with the pad id 1, and two items that a
  tokenizer with pad id 0 padded to 4.
\<close>

definition padded_items :: "item list" where
  "padded_items =
     [\<lparr>input_ids = [10, 11, 12, 13, 14] @ replicate 15 1,
       attention_mask = replicate 5 1 @ replicate 15 0,
       decoder_input_ids = [20, 21, 1, 1]\<rparr>,
      \<lparr>input_ids = [10, 11, 12, 13, 14, 15, 16, 17] @ replicate 12 1,
       attention_mask = replicate 8 1 @ replicate 12 0,
       decoder_input_ids = [20, 21, 22, 1]\<rparr>]"

definition zero_padded_items :: "item list" where
  "zero_padded_items =
     [\<lparr>input_ids = [5, 6, 0, 0], attention_mask = [1, 1, 0, 0],
       decoder_input_ids = [7, 0, 0]\<rparr>,
      \<lparr>input_ids = [7, 0, 0, 0], attention_mask = [1, 0, 0, 0],
       decoder_input_ids = [8, 9, 0]\<rparr>]"

section \<open>encode_file and the cache\<close>

text \<open>
  The file system holds text files and files written by \<open>torch.save\<close>; loading returns
  what was saved. Text is a sequence of 8-bit characters, and a path is the string it was
  built from. The world also records every call of the tokenizer: the text and the
  maximal length it was called with.
\<close>

datatype fs_file = TextFile string | PickleFile "encoding list"

record world =
  files :: "string \<Rightarrow> fs_file option"
  tok_log :: "(string \<times> int) list"

text \<open>
  The tokenizer is external: \<open>batch_encode_plus(texts, max_length, pad_to_max_length,
  add_prefix_space, return_tensors)\<close> returns an encoding or raises. \<open>is_bart\<close> is
  \<open>isinstance(tokenizer, BartTokenizer)\<close>.
\<close>

record tokenizer =
  is_bart :: bool
  batch_encode_plus :: "string list \<Rightarrow> int \<Rightarrow> bool \<Rightarrow> bool \<Rightarrow> string \<Rightarrow> py_error + encoding"

definition T5_PREFIX :: string where
  "T5_PREFIX = ''summarize: ''"

text \<open>Decimal digits of an integer, as an f-string prints it.\<close>

fun str_nat :: "nat \<Rightarrow> string" where
  "str_nat n =
     (if n < 10 then [''0123456789'' ! n]
      else str_nat (n div 10) @ [''0123456789'' ! (n mod 10)])"

declare str_nat.simps [simp del]

definition str_int :: "int \<Rightarrow> string" where
  "str_int i = (if i < 0 then CHR ''-'' # str_nat (nat (- i)) else str_nat (nat i))"

text \<open>
  \<open>open(path).readlines()\<close> in text mode: \<open>\r\n\<close> and \<open>\r\<close> become \<open>\n\<close>, and the
  text is cut after every \<open>\n\<close>; a last line without a newline is a line.
\<close>

fun universal_newlines :: "string \<Rightarrow> string" where
  "universal_newlines [] = []"
| "universal_newlines [c] = [if c = CHR 0x0D then CHR 0x0A else c]"
| "universal_newlines (c # d # cs) =
     (if c = CHR 0x0D \<and> d = CHR 0x0A then CHR 0x0A # universal_newlines cs
      else if c = CHR 0x0D then CHR 0x0A # universal_newlines (d # cs)
      else c # universal_newlines (d # cs))"

fun split_keepends :: "string \<Rightarrow> string \<Rightarrow> string list" where
  "split_keepends cur [] = (if cur = [] then [] else [cur])"
| "split_keepends cur (c # cs) =
     (if c = CHR 0x0A then (cur @ [c]) # split_keepends [] cs
      else split_keepends (cur @ [c]) cs)"

definition readlines :: "string \<Rightarrow> string list" where
  "readlines content = split_keepends [] (universal_newlines content)"

text \<open>\<open>str.strip\<close>: the white space of Python among the characters below 256.\<close>

definition is_space :: "char \<Rightarrow> bool" where
  "is_space c =
     (let n = (of_char c :: nat)
      in (9 \<le> n \<and> n \<le> 13) \<or> (28 \<le> n \<and> n \<le> 32) \<or> n = 133 \<or> n = 160)"

definition strip :: "string \<Rightarrow> string" where
  "strip s = rev (dropWhile is_space (rev (dropWhile is_space s)))"

text \<open>\<open>torch.load\<close> of a path, \<open>torch.save\<close> to a path, and reading a text file.\<close>

definition torch_load :: "world \<Rightarrow> string \<Rightarrow> py_error + encoding list" where
  "torch_load w path =
     (case files w path of
        None \<Rightarrow> Inl FileNotFoundError
      | Some (TextFile _) \<Rightarrow> Inl UnpicklingError
      | Some (PickleFile xs) \<Rightarrow> Inr xs)"

definition torch_save :: "encoding list \<Rightarrow> string \<Rightarrow> world \<Rightarrow> world" where
  "torch_save xs path w = w\<lparr>files := (files w)(path \<mapsto> PickleFile xs)\<rparr>"

definition open_readlines :: "world \<Rightarrow> string \<Rightarrow> py_error + string list" where
  "open_readlines w path =
     (case files w path of
        None \<Rightarrow> Inl FileNotFoundError
      | Some (PickleFile _) \<Rightarrow> Inl UnicodeDecodeError
      | Some (TextFile content) \<Rightarrow> Inr (readlines content))"

text \<open>
  The loop of \<open>encode_file\<close>: one call of the tokenizer for each line, on the list that
  holds this one text; an exception of the tokenizer ends the loop.
\<close>

fun tokenize_lines ::
  "tokenizer \<Rightarrow> int \<Rightarrow> bool \<Rightarrow> string \<Rightarrow> string list \<Rightarrow> encoding list \<Rightarrow> world
     \<Rightarrow> (py_error + encoding list) \<times> world" where
  "tokenize_lines tk max_length pad rt [] examples w = (Inr examples, w)"
| "tokenize_lines tk max_length pad rt (text # lns) examples w =
     (let w' = w\<lparr>tok_log := tok_log w @ [(text, max_length)]\<rparr>
      in case batch_encode_plus tk [text] max_length pad True rt of
           Inl e \<Rightarrow> (Inl e, w')
         | Inr tokenized \<Rightarrow> tokenize_lines tk max_length pad rt lns (examples @ [tokenized]) w')"

text \<open>The cache path \<open>f"{data_path}_{tok_name}{max_length}.pkl"\<close>.\<close>

definition cache_path_of :: "string \<Rightarrow> string \<Rightarrow> int \<Rightarrow> string" where
  "cache_path_of data_path tok_name max_length =
     data_path @ ''_'' @ tok_name @ str_int max_length @ ''.pkl''"

text \<open>
  \<open>encode_file(tokenizer, data_path, max_length, pad_to_max_length, return_tensors,
  overwrite_cache, prefix, tok_name)\<close>, in a world that it may change.
\<close>

definition encode_file ::
  "tokenizer \<Rightarrow> string \<Rightarrow> int \<Rightarrow> bool \<Rightarrow> string \<Rightarrow> bool \<Rightarrow> string \<Rightarrow> string \<Rightarrow> world
     \<Rightarrow> (py_error + encoding list) \<times> world" where
  "encode_file tk data_path max_length pad_to_max_length return_tensors overwrite_cache
       prefix tok_name w =
     (let cache_path = cache_path_of data_path tok_name max_length in
      if \<not> overwrite_cache \<and> files w cache_path \<noteq> None then (torch_load w cache_path, w)
      else
        case open_readlines w data_path of
          Inl e \<Rightarrow> (Inl e, w)
        | Inr raw \<Rightarrow>
            let lns = map strip raw;
                lns = map (\<lambda>text. prefix @ text) lns
            in case tokenize_lines tk max_length pad_to_max_length return_tensors lns [] w of
                 (Inl e, w') \<Rightarrow> (Inl e, w')
               | (Inr examples, w') \<Rightarrow> (Inr examples, torch_save examples cache_path w'))"

text \<open>\<open>os.path.join\<close> of two components (POSIX).\<close>

definition path_join :: "string \<Rightarrow> string \<Rightarrow> string" where
  "path_join a b =
     (if b \<noteq> [] \<and> hd b = CHR ''/'' then b
      else if a = [] \<or> last a = CHR ''/'' then a @ b
      else a @ ''/'' @ b)"

text \<open>
  \<open>SummarizationDataset.from_raw_data\<close>; both calls of \<open>encode_file\<close> leave
  \<open>pad_to_max_length\<close> and \<open>return_tensors\<close> at their defaults, and the second one
  leaves \<open>prefix\<close> at its default too.
\<close>

definition from_raw_data ::
  "tokenizer \<Rightarrow> string \<Rightarrow> string \<Rightarrow> int \<Rightarrow> int \<Rightarrow> int option \<Rightarrow> bool \<Rightarrow> string \<Rightarrow> world
     \<Rightarrow> (py_error + dataset) \<times> world" where
  "from_raw_data tk data_dir type_path max_src max_tgt n_obs overwrite_cache tgt_suffix w =
     (let tok_name = (if \<not> is_bart tk then ''T5'' else '''');
          prefix = (if tok_name = ''T5'' then T5_PREFIX else '''')
      in case encode_file tk (path_join data_dir (type_path @ ''.source'')) max_src
                True ''pt'' overwrite_cache prefix tok_name w of
           (Inl e, w1) \<Rightarrow> (Inl e, w1)
         | (Inr src, w1) \<Rightarrow>
             let tgt_path =
                   (if type_path = ''train''
                    then path_join data_dir (type_path @ ''.target'' @ tgt_suffix)
                    else path_join data_dir (type_path @ ''.target''))
             in case encode_file tk tgt_path max_tgt True ''pt'' overwrite_cache '''' tok_name w1 of
                  (Inl e, w2) \<Rightarrow> (Inl e, w2)
                | (Inr tgt, w2) \<Rightarrow> (Inr (dataset_init src tgt max_src max_tgt n_obs), w2))"

text \<open>The paths and the names that \<open>from_raw_data\<close> computes.\<close>

definition tok_name_of :: "tokenizer \<Rightarrow> string" where
  "tok_name_of tk = (if \<not> is_bart tk then ''T5'' else [])"

definition source_path :: "string \<Rightarrow> string \<Rightarrow> string" where
  "source_path data_dir type_path = path_join data_dir (type_path @ ''.source'')"

definition target_path :: "string \<Rightarrow> string \<Rightarrow> string \<Rightarrow> string" where
  "target_path data_dir type_path tgt_suffix =
     (if type_path = ''train'' then path_join data_dir (type_path @ ''.target'' @ tgt_suffix)
      else path_join data_dir (type_path @ ''.target''))"

text \<open>
  A tokenizer and a world to run the functions on: the tokenizer gives the code of each
  character as its token id, cuts at \<open>max_length\<close> and pads with the id 1 when asked; the
  world holds a source file and a target file of two lines each.
\<close>

definition char_ids :: "string \<Rightarrow> int \<Rightarrow> bool \<Rightarrow> int list" where
  "char_ids t ml pad =
     (let xs = take (nat ml) (map (\<lambda>c. int (of_char c)) t)
      in if pad then xs @ replicate (nat ml - length xs) 1 else xs)"

definition char_encode :: "string list \<Rightarrow> int \<Rightarrow> bool \<Rightarrow> encoding" where
  "char_encode texts ml pad =
     [(''input_ids'', map (\<lambda>t. char_ids t ml pad) texts),
      (''attention_mask'', map (\<lambda>t. map (\<lambda>x. if x = 1 then 0 else 1) (char_ids t ml pad)) texts)]"

definition char_tokenizer :: "bool \<Rightarrow> tokenizer" where
  "char_tokenizer bart =
     \<lparr>is_bart = bart, batch_encode_plus = (\<lambda>texts ml pad aps rt. Inr (char_encode texts ml pad))\<rparr>"

definition demo_world :: world where
  "demo_world =
     \<lparr>files = [''data/val.source'' \<mapsto> TextFile ''ab \<newline> c\<newline>'',
               ''data/val.target'' \<mapsto> TextFile ''x\<newline>y\<newline>''],
      tok_log = []\<rparr>"

section \<open>Chunks, sorting and the first maximum\<close>

lemma chunked_Nil: "chunked sz [] = []"
  by (cases sz) (simp_all add: chunked_def)

lemma length_chunked: "length (chunked sz xs) = (length xs + sz - 1) div sz"
  by (simp add: chunked_def)

lemma concat_chunks_take:
  "concat (map (\<lambda>k. take sz (drop (k * sz) xs)) [0..<m]) = take (m * sz) xs"
proof (induction m)
  case 0
  show ?case by simp
next
  case (Suc m)
  have "Suc m * sz = m * sz + sz" by simp
  then have "take (Suc m * sz) xs = take (m * sz) xs @ take sz (drop (m * sz) xs)"
    by (simp only: take_add)
  with Suc show ?case by simp
qed

lemma ceil_div_bound: "0 < sz \<Longrightarrow> (n::nat) \<le> ((n + sz - 1) div sz) * sz"
proof -
  assume sz: "0 < sz"
  have "n + sz - 1 = ((n + sz - 1) div sz) * sz + (n + sz - 1) mod sz" by simp
  moreover have "(n + sz - 1) mod sz < sz" using sz by simp
  ultimately show ?thesis by linarith
qed

lemma concat_chunked: "0 < sz \<Longrightarrow> concat (chunked sz xs) = xs"
  using ceil_div_bound [of sz "length xs"]
  by (simp add: chunked_def concat_chunks_take)

lemma ceil_div_step:
  assumes sz: "0 < sz" and n: "0 < (n::nat)"
  shows "(n + sz - 1) div sz = Suc ((n - sz + sz - 1) div sz)"
proof (cases "sz \<le> n")
  case True
  then obtain m where m: "n = m + sz" by (metis le_add_diff_inverse2)
  have "m + sz + sz - 1 = (m + sz - 1) + sz" using sz by arith
  then have "(m + sz + sz - 1) div sz = Suc ((m + sz - 1) div sz)"
    using sz by (simp only: div_add_self2)
  then show ?thesis by (simp add: m)
next
  case False
  have "(n + sz - 1) div sz = 1" using False n sz by (simp add: div_nat_eqI)
  moreover have "(n - sz + sz - 1) div sz = 0" using False sz by simp
  ultimately show ?thesis by simp
qed

lemma chunked_rec:
  assumes sz: "0 < sz" and ne: "xs \<noteq> []"
  shows "chunked sz xs = take sz xs # chunked sz (drop sz xs)"
proof -
  define m where "m = (length (drop sz xs) + sz - 1) div sz"
  have cnt: "(length xs + sz - 1) div sz = Suc m"
    using ceil_div_step [OF sz, of "length xs"] ne by (simp add: m_def)
  have "chunked sz xs = map (\<lambda>k. take sz (drop (k * sz) xs)) [0..<Suc m]"
    unfolding chunked_def cnt ..
  also have "\<dots> = take sz xs # map (\<lambda>k. take sz (drop (Suc k * sz) xs)) [0..<m]"
    by (simp only: map_upt_Suc) simp
  also have "map (\<lambda>k. take sz (drop (Suc k * sz) xs)) [0..<m]
        = map (\<lambda>k. take sz (drop (k * sz) (drop sz xs))) [0..<m]"
    by (simp add: add.commute)
  also have "\<dots> = chunked sz (drop sz xs)"
    unfolding chunked_def m_def ..
  finally show ?thesis .
qed


lemma mset_sorted_reverse: "mset (sorted_reverse f xs) = mset xs"
  by (simp add: sorted_reverse_def)

lemma length_sorted_reverse: "length (sorted_reverse f xs) = length xs"
  by (simp add: sorted_reverse_def)

lemma set_sorted_reverse: "set (sorted_reverse f xs) = set xs"
  by (simp add: sorted_reverse_def)

lemma descending_sorted_reverse: "descending f (sorted_reverse f xs)"
proof -
  have "sorted (map f (sort_key f (rev xs)))" by (rule sorted_sort_key)
  then have "sorted_wrt (\<lambda>a b. f a \<le> f b) (sort_key f (rev xs))"
    by (simp add: sorted_wrt_map)
  then show ?thesis
    by (simp add: descending_def sorted_reverse_def sorted_wrt_rev)
qed

lemma descending_hd: "descending f xs \<Longrightarrow> x \<in> set xs \<Longrightarrow> f x \<le> f (hd xs)"
  by (cases xs) (auto simp: descending_def)

lemma descending_take_drop: "descending f xs \<Longrightarrow> descending f (take n (drop m xs))"
  by (simp add: descending_def)

lemma chunked_map_commute:
  assumes M: "0 < M" and len: "\<And>ys. length (g ys) = length ys"
  shows "chunked M (concat (map g (chunked M xs))) = map g (chunked M xs)"
proof (induction xs rule: length_induct)
  case (1 xs)
  show ?case
  proof (cases "xs = []")
    case True
    then show ?thesis by (simp add: chunked_Nil)
  next
    case False
    let ?rest = "concat (map g (chunked M (drop M xs)))"
    have shorter: "length (drop M xs) < length xs" using False M by simp
    have IH: "chunked M ?rest = map g (chunked M (drop M xs))"
      using 1 shorter by blast
    have ne: "g (take M xs) \<noteq> []"
      using False M len [of "take M xs"] by (metis length_0_conv take_eq_Nil less_numeral_extra(3))
    have split: "chunked M (g (take M xs) @ ?rest)
                 = take M (g (take M xs) @ ?rest) # chunked M (drop M (g (take M xs) @ ?rest))"
      using ne by (intro chunked_rec [OF M]) simp
    show ?thesis
    proof (cases "M \<le> length xs")
      case True
      then have "length (g (take M xs)) = M" by (simp add: len)
      then have "take M (g (take M xs) @ ?rest) = g (take M xs)"
        and "drop M (g (take M xs) @ ?rest) = ?rest" by simp_all
      with split IH show ?thesis
        by (simp add: chunked_rec [OF M False])
    next
      case short: False
      then have d: "drop M xs = []" by simp
      have "length (g (take M xs)) < M" using short by (simp add: len)
      then have "take M (g (take M xs)) = g (take M xs)"
        and "drop M (g (take M xs)) = []" by simp_all
      with split d show ?thesis
        by (simp add: chunked_rec [OF M False] chunked_Nil)
    qed
  qed
qed

lemma nth_chunk_cases:
  assumes M: "0 < M"
  shows "take M (drop (a * M) ys) = (if a < length (chunked M ys) then chunked M ys ! a else [])"
proof (cases "a < length (chunked M ys)")
  case True
  then show ?thesis by (simp add: chunked_def)
next
  case False
  then have "((length ys + M - 1) div M) * M \<le> a * M"
    by (simp add: length_chunked)
  with ceil_div_bound [OF M, of "length ys"] have "length ys \<le> a * M" by linarith
  with False show ?thesis by simp
qed

lemma batch_in_mega:
  assumes r: "r < c"
  shows "take b (drop ((a * c + r) * b) ys)
         = take b (drop (r * b) (take (c * b) (drop (a * (c * b)) ys)))"
proof -
  have "Suc r \<le> c" using r by simp
  then have "Suc r * b \<le> c * b" by (rule mult_le_mono1)
  then have le: "b \<le> c * b - r * b" by simp
  have "drop (r * b) (take (c * b) (drop (a * (c * b)) ys))
        = take (c * b - r * b) (drop (r * b + a * (c * b)) ys)"
    by (simp add: drop_take)
  moreover have "r * b + a * (c * b) = (a * c + r) * b"
    by (simp add: algebra_simps)
  ultimately show ?thesis using le by (simp add: min_absorb1)
qed

lemma length_takeWhile_lt:
  "\<exists>x\<in>set xs. \<not> P x \<Longrightarrow> length (takeWhile P xs) < length xs"
  by (induction xs) auto

lemma argmax_ok:
  assumes "xs \<noteq> []"
  shows "\<exists>m. argmax xs = Inr m \<and> m < length xs \<and> xs ! m = Max (set xs)"
proof -
  let ?P = "\<lambda>x. x < Max (set xs)"
  let ?m = "length (takeWhile ?P xs)"
  have "Max (set xs) \<in> set xs" using assms by (intro Max_in) simp_all
  then have "\<exists>x\<in>set xs. \<not> ?P x" by blast
  then have lt: "?m < length xs"
    by (rule length_takeWhile_lt)
  then have "\<not> ?P (xs ! ?m)" by (rule nth_length_takeWhile)
  moreover have "xs ! ?m \<le> Max (set xs)" using lt by simp
  ultimately have "xs ! ?m = Max (set xs)" by simp
  with lt assms show ?thesis by (simp add: argmax_def)
qed

lemma mset_concat_shuffle:
  assumes "mset ys = mset xs"
  shows "mset (concat ys) = mset (concat xs)"
proof -
  have "mset (concat ys) = sum_mset (image_mset mset (mset ys))"
    by (simp add: mset_concat flip: sum_mset_sum_list)
  also have "\<dots> = sum_mset (image_mset mset (mset xs))" using assms by simp
  also have "\<dots> = mset (concat xs)"
    by (simp add: mset_concat flip: sum_mset_sum_list)
  finally show ?thesis .
qed

lemma chunk_index_lt:
  assumes sz: "0 < sz" and k: "k < (n + sz - 1) div sz"
  shows "k * sz < (n::nat)"
proof -
  have "Suc k * sz \<le> ((n + sz - 1) div sz) * sz"
    using k by (intro mult_le_mono1) simp
  also have "\<dots> \<le> n + sz - 1" by simp
  finally show ?thesis using sz by simp
qed

lemma chunked_nonempty:
  assumes sz: "0 < sz" and c: "c \<in> set (chunked sz xs)"
  shows "c \<noteq> []"
proof -
  from c obtain k where k: "k < (length xs + sz - 1) div sz"
    and c_eq: "c = take sz (drop (k * sz) xs)"
    by (auto simp: chunked_def)
  from chunk_index_lt [OF sz k] have "k * sz < length xs" .
  with sz c_eq show ?thesis by simp
qed

lemma chunked_single:
  assumes "0 < sz" and "xs \<noteq> []" and "length xs \<le> sz"
  shows "chunked sz xs = [xs]"
  using assms by (simp add: chunked_rec chunked_Nil)

lemma chunked_eq_Nil: "0 < sz \<Longrightarrow> chunked sz xs = [] \<longleftrightarrow> xs = []"
  by (metis chunked_Nil chunked_rec list.distinct(1))

lemma mset_concat_map_sorted:
  "mset (concat (map (sorted_reverse f) cks)) = mset (concat cks)"
  by (induction cks) (simp_all add: mset_sorted_reverse)

lemma batches_descending:
  assumes b: "0 < b"
  shows "descending f (take b (drop (k * b)
           (concat (map (sorted_reverse f) (chunked (50 * b) idxs)))))"
proof -
  let ?g = "sorted_reverse f"
  let ?ys = "concat (map ?g (chunked (50 * b) idxs))"
  let ?mega = "take (50 * b) (drop ((k div 50) * (50 * b)) ?ys)"
  have M: "0 < 50 * b" using b by simp
  have cm: "chunked (50 * b) ?ys = map ?g (chunked (50 * b) idxs)"
    by (rule chunked_map_commute [OF M]) (rule length_sorted_reverse)
  have "descending f ?mega"
  proof (cases "k div 50 < length (chunked (50 * b) ?ys)")
    case True
    then have "?mega = ?g (chunked (50 * b) idxs ! (k div 50))"
      using nth_chunk_cases [OF M, of "k div 50" ?ys] by (simp add: cm)
    then show ?thesis by (simp add: descending_sorted_reverse)
  next
    case False
    have "?mega = (if k div 50 < length (chunked (50 * b) ?ys)
                   then chunked (50 * b) ?ys ! (k div 50) else [])"
      by (rule nth_chunk_cases [OF M])
    also have "\<dots> = []" using False by (simp only: if_False)
    finally have e: "?mega = []" .
    show ?thesis unfolding e by (simp add: descending_def)
  qed
  then have "descending f (take b (drop ((k mod 50) * b) ?mega))"
    by (rule descending_take_drop)
  moreover have "take b (drop ((k div 50 * 50 + k mod 50) * b) ?ys)
                 = take b (drop ((k mod 50) * b) ?mega)"
    by (rule batch_in_mega) simp
  ultimately show ?thesis by simp
qed

lemma mset_sort_idx_of: "1 \<le> bs s \<Longrightarrow> mset (sort_idx_of s idxs) = mset idxs"
  by (simp add: sort_idx_of_def mset_concat_map_sorted concat_chunked)

lemma concat_candidate_batches:
  "1 \<le> bs s \<Longrightarrow> concat (candidate_batches s idxs) = sort_idx_of s idxs"
  by (simp add: candidate_batches_def concat_chunked)

lemma swap_first_props:
  assumes "m < length cks"
  shows "swap_first cks m ! 0 = cks ! m"
    and "length (swap_first cks m) = length cks"
    and "mset (swap_first cks m) = mset cks"
proof -
  have pos: "0 < length cks" using assms by (cases cks) simp_all
  show "swap_first cks m ! 0 = cks ! m"
    using assms pos by (cases "m = 0") (simp_all add: swap_first_def)
  show "length (swap_first cks m) = length cks"
    by (simp add: swap_first_def)
  from pos show "mset (swap_first cks m) = mset cks"
    unfolding swap_first_def using assms by (simp add: mset_swap)
qed

lemma sortish_iter_unfold:
  assumes bs: "1 \<le> bs s" and ne: "idxs \<noteq> []"
    and rng: "\<forall>i\<in>set idxs. i < length (data_source s)"
  shows "\<exists>m<length (candidate_batches s idxs).
           key s (hd (candidate_batches s idxs ! m))
             = Max (set (map (\<lambda>ck. key s (hd ck)) (candidate_batches s idxs))) \<and>
           sortish_iter s idxs shuffle
             = Inr (candidate_batches s idxs ! m @
                    (if 1 < length (candidate_batches s idxs)
                     then concat (shuffle (tl (swap_first (candidate_batches s idxs) m)))
                     else []))"
proof -
  let ?b = "nat (bs s)"
  let ?ck = "candidate_batches s idxs"
  let ?heads = "map (\<lambda>ck. key s (hd ck)) ?ck"
  have b: "0 < ?b" using bs by simp
  have sz: "bs s * 50 \<noteq> 0" "\<not> bs s * 50 < 0" using bs by simp_all
  have nat50: "nat (bs s * 50) = 50 * ?b" using bs by (simp add: nat_mult_distrib)
  have mega_ne: "chunked (50 * ?b) idxs \<noteq> []" using ne b by (simp add: chunked_eq_Nil)
  have noex: "\<not> list_ex (\<lambda>i. length (data_source s) \<le> i) idxs"
    using rng by (auto simp: list_ex_iff)
  have "mset (sort_idx_of s idxs) \<noteq> {#}" using ne bs by (simp add: mset_sort_idx_of)
  then have "sort_idx_of s idxs \<noteq> []" by auto
  then have "?heads \<noteq> []" using b by (simp add: candidate_batches_def chunked_eq_Nil)
  from argmax_ok [OF this] obtain m where am: "argmax ?heads = Inr m"
    and m: "m < length ?ck" and mx: "?heads ! m = Max (set ?heads)" by auto
  have conc: "np_concatenate (map (sorted_reverse (key s)) (chunked (50 * ?b) idxs))
              = Inr (sort_idx_of s idxs)"
    using mega_ne by (simp add: np_concatenate_def sort_idx_of_def)
  have am': "argmax (map (\<lambda>ck. key s (hd ck)) (chunked ?b (sort_idx_of s idxs))) = Inr m"
    using am by (simp add: candidate_batches_def)
  have "sortish_iter s idxs shuffle
        = Inr (swap_first ?ck m ! 0 @
               (if 1 < length (swap_first ?ck m)
                then concat (shuffle (tl (swap_first ?ck m))) else []))"
    unfolding sortish_iter_def Let_def
    by (simp only: sz nat50 mega_ne noex conc am' if_False if_True not_False_eq_True
          simp_thms sum.case swap_first_def candidate_batches_def)
  then have "sortish_iter s idxs shuffle
        = Inr (?ck ! m @
               (if 1 < length ?ck
                then concat (shuffle (tl (swap_first ?ck m))) else []))"
    by (simp only: swap_first_props [OF m])
  moreover have "key s (hd (?ck ! m)) = Max (set ?heads)"
    using mx m by simp
  ultimately show ?thesis using m by blast
qed

lemma candidate_batch_descending:
  assumes bs: "1 \<le> bs s" and c: "c \<in> set (candidate_batches s idxs)"
  shows "descending (key s) c"
proof -
  have b: "0 < nat (bs s)" using bs by simp
  from c obtain k where "c = take (nat (bs s)) (drop (k * nat (bs s)) (sort_idx_of s idxs))"
    by (auto simp: candidate_batches_def chunked_def)
  then show ?thesis
    unfolding sort_idx_of_def by (simp only: batches_descending [OF b])
qed

lemma sortish_iter_result:
  assumes bs: "1 \<le> bs s" and ne: "idxs \<noteq> []"
    and rng: "\<forall>i\<in>set idxs. i < length (data_source s)"
    and shuffle: "\<And>cks. mset (shuffle cks) = mset cks"
  shows "\<exists>out. sortish_iter s idxs shuffle = Inr out \<and> mset out = mset idxs \<and>
           out \<noteq> [] \<and> (\<forall>i\<in>set out. key s i \<le> key s (hd out))"
proof -
  let ?ck = "candidate_batches s idxs"
  let ?heads = "map (\<lambda>ck. key s (hd ck)) ?ck"
  have b: "0 < nat (bs s)" using bs by simp
  from sortish_iter_unfold [OF bs ne rng, of shuffle]
  obtain m where m: "m < length ?ck"
    and mx: "key s (hd (?ck ! m)) = Max (set ?heads)"
    and res: "sortish_iter s idxs shuffle
               = Inr (?ck ! m @ (if 1 < length ?ck
                                 then concat (shuffle (tl (swap_first ?ck m))) else []))"
    by blast
  let ?sw = "swap_first ?ck m"
  let ?rest = "if 1 < length ?ck then concat (shuffle (tl ?sw)) else []"
  let ?out = "?ck ! m @ ?rest"
  note sw = swap_first_props [OF m]
  have sw_split: "?sw = ?ck ! m # tl ?sw"
  proof (cases ?sw)
    case Nil
    with sw(2) m show ?thesis by simp
  next
    case (Cons x xs)
    with sw(1) show ?thesis by simp
  qed
  have "mset ?rest = mset (concat (tl ?sw))"
  proof (cases "1 < length ?ck")
    case True
    then show ?thesis by (simp add: mset_concat_shuffle [OF shuffle])
  next
    case False
    then have "length (tl ?sw) = 0" using sw(2) by simp
    then have "tl ?sw = []" by (simp only: length_0_conv)
    with False show ?thesis by simp
  qed
  then have "mset ?out = mset (?ck ! m) + mset (concat (tl ?sw))" by simp
  also have "\<dots> = mset (concat (?ck ! m # tl ?sw))" by simp
  also have "\<dots> = mset (concat ?sw)" using sw_split by simp
  also have "\<dots> = mset (concat ?ck)" by (rule mset_concat_shuffle [OF sw(3)])
  also have "\<dots> = mset idxs"
    using bs by (simp add: concat_candidate_batches mset_sort_idx_of)
  finally have perm: "mset ?out = mset idxs" .
  have in_ck: "?ck ! m \<in> set ?ck" using m by simp
  then have cm_ne: "?ck ! m \<noteq> []"
    unfolding candidate_batches_def by (rule chunked_nonempty [OF b])
  then have out_ne: "?out \<noteq> []" and hd_out: "hd ?out = hd (?ck ! m)" by simp_all
  have max: "key s i \<le> key s (hd ?out)" if i: "i \<in> set ?out" for i
  proof -
    have "set ?out = set (concat ?ck)"
      using perm bs
      by (metis concat_candidate_batches mset_sort_idx_of mset_eq_setD)
    with i obtain c where c: "c \<in> set ?ck" and ic: "i \<in> set c" by auto
    have "key s i \<le> key s (hd c)"
      using candidate_batch_descending [OF bs c] ic by (rule descending_hd)
    also have "key s (hd c) \<le> Max (set ?heads)" using c by (intro Max_ge) auto
    finally show ?thesis by (simp only: hd_out mx)
  qed
  from res perm out_ne max show ?thesis by blast
qed

lemma perm_in_range:
  "mset idxs = mset [0..<n] \<Longrightarrow> \<forall>i\<in>set idxs. i < n"
  by (metis atLeastLessThan_iff mset_eq_setD set_upt)

lemma perm_length: "mset idxs = mset [0..<n] \<Longrightarrow> length idxs = n"
  using mset_eq_length [of idxs "[0..<n]"] by simp

lemma perm_nonempty: "mset idxs = mset [0..<n] \<Longrightarrow> 1 \<le> n \<Longrightarrow> idxs \<noteq> []"
  using perm_length [of idxs n] by auto

text \<open>
  Claim C1. For a dataset of \<open>N \<ge> 1\<close> examples and a batch size of at least 1, whatever
  the two random draws are (\<open>idxs\<close> a permutation of \<open>range(N)\<close>, \<open>shuffle\<close> a
  reordering of the remaining batches), \<open>__iter__\<close> returns without an exception and the
  produced order is a permutation of \<open>range(N)\<close>: every index \<open>0..N-1\<close> occurs
  exactly once.
\<close>

theorem sortish_iter_is_permutation:
  assumes "1 \<le> bs s" and "1 \<le> length (data_source s)"
    and "mset idxs = mset [0..<length (data_source s)]"
    and "\<forall>cks. mset (shuffle cks) = mset cks"
  shows "\<exists>out. sortish_iter s idxs shuffle = Inr out \<and>
           mset out = mset [0..<length (data_source s)] \<and>
           distinct out \<and> set out = {0..<length (data_source s)} \<and>
           length out = length (data_source s)"
proof -
  from assms(4) have sh: "\<And>cks. mset (shuffle cks) = mset cks" by blast
  from sortish_iter_result [OF assms(1) perm_nonempty [OF assms(3,2)]
      perm_in_range [OF assms(3)] sh]
  obtain out where res: "sortish_iter s idxs shuffle = Inr out"
    and perm: "mset out = mset idxs" by blast
  from perm assms(3) have p: "mset out = mset [0..<length (data_source s)]" by simp
  then have "distinct out" by (metis distinct_upt mset_eq_imp_distinct_iff)
  moreover from p have "set out = {0..<length (data_source s)}"
    by (metis mset_eq_setD set_upt)
  moreover from p have "length out = length (data_source s)"
    by (metis mset_eq_length length_upt diff_zero)
  ultimately show ?thesis using res p by blast
qed

theorem sortish_iter_is_permutation_witness:
  "1 \<le> bs \<lparr>data_source = demo_source, bs = 2\<rparr> \<and>
   1 \<le> length demo_source \<and>
   mset [2, 0, 1] = mset [0..<length demo_source] \<and>
   (\<forall>cks :: nat list list. mset (rev cks) = mset cks) \<and>
   (\<exists>out. sortish_iter \<lparr>data_source = demo_source, bs = 2\<rparr> [2, 0, 1] rev = Inr out \<and>
      mset out = mset [0..<length demo_source] \<and> distinct out \<and>
      set out = {0..<length demo_source} \<and> length out = length demo_source)"
proof -
  let ?s = "\<lparr>data_source = demo_source, bs = 2\<rparr>"
  have h1: "1 \<le> bs ?s" by simp
  have h2: "1 \<le> length (data_source ?s)" by (simp add: demo_source_def)
  have h3: "mset [2, 0, 1] = mset [0..<length (data_source ?s)]"
    by (simp add: demo_source_def upt_rec)
  have h4: "\<forall>cks :: nat list list. mset (rev cks) = mset cks" by simp
  from sortish_iter_is_permutation [OF h1 h2 h3 h4] h1 h2 h3 h4
  show ?thesis by (simp only: sampler.simps) blast
qed

text \<open>
  Claim C2. In the produced order, cut into batches of \<open>bs\<close> indices, the first element
  of the first batch has a key at least as large as the first element of every batch. More
  is true: the first index of the produced order has the largest key of all indices, since
  every candidate batch lies inside one sorted chunk of \<open>50 * bs\<close> indices.
\<close>

theorem first_batch_has_largest_key:
  assumes "1 \<le> bs s" and "1 \<le> length (data_source s)"
    and "mset idxs = mset [0..<length (data_source s)]"
    and "\<forall>cks. mset (shuffle cks) = mset cks"
  shows "\<exists>out. sortish_iter s idxs shuffle = Inr out \<and>
           (\<forall>bt\<in>set (chunked (nat (bs s)) out).
              key s (hd bt) \<le> key s (hd (hd (chunked (nat (bs s)) out)))) \<and>
           (\<forall>i\<in>set out. key s i \<le> key s (hd out))"
proof -
  have b: "0 < nat (bs s)" using assms(1) by simp
  from assms(4) have sh: "\<And>cks. mset (shuffle cks) = mset cks" by blast
  from sortish_iter_result [OF assms(1) perm_nonempty [OF assms(3,2)]
      perm_in_range [OF assms(3)] sh]
  obtain out where res: "sortish_iter s idxs shuffle = Inr out"
    and ne: "out \<noteq> []" and mx: "\<forall>i\<in>set out. key s i \<le> key s (hd out)" by blast
  have first: "hd (hd (chunked (nat (bs s)) out)) = hd out"
    using b ne by (simp add: chunked_rec)
  have "key s (hd bt) \<le> key s (hd out)" if bt: "bt \<in> set (chunked (nat (bs s)) out)" for bt
  proof -
    have "bt \<noteq> []" using bt by (rule chunked_nonempty [OF b])
    then have "hd bt \<in> set bt" by simp
    moreover have "set bt \<subseteq> set (concat (chunked (nat (bs s)) out))" using bt by auto
    ultimately have "hd bt \<in> set out" using b by (auto simp: concat_chunked)
    with mx show ?thesis by blast
  qed
  with res mx first show ?thesis by auto
qed

theorem first_batch_has_largest_key_witness:
  "1 \<le> bs \<lparr>data_source = mixed_source, bs = 1\<rparr> \<and>
   1 \<le> length mixed_source \<and>
   mset [0, 1, 2] = mset [0..<length mixed_source] \<and>
   (\<forall>cks :: nat list list. mset (rev cks) = mset cks) \<and>
   sortish_iter \<lparr>data_source = mixed_source, bs = 1\<rparr> [0, 1, 2] rev = Inr [1, 0, 2] \<and>
   key \<lparr>data_source = mixed_source, bs = 1\<rparr> 0
     \<le> key \<lparr>data_source = mixed_source, bs = 1\<rparr> 1 \<and>
   key \<lparr>data_source = mixed_source, bs = 1\<rparr> 2
     \<le> key \<lparr>data_source = mixed_source, bs = 1\<rparr> 1"
proof -
  let ?s = "\<lparr>data_source = mixed_source, bs = 1\<rparr>"
  have h1: "1 \<le> bs ?s" by simp
  have h2: "1 \<le> length (data_source ?s)" by (simp add: mixed_source_def)
  have h3: "mset [0, 1, 2] = mset [0..<length (data_source ?s)]"
    by (simp add: mixed_source_def upt_rec)
  have h4: "\<forall>cks :: nat list list. mset (rev cks) = mset cks" by simp
  have run: "sortish_iter ?s [0, 1, 2] rev = Inr [1, 0, 2]"
    by (simp add: sortish_iter_def chunked_def sorted_reverse_def key_def dict_len_def
          mixed_source_def np_concatenate_def argmax_def upt_rec Let_def)
  from first_batch_has_largest_key [OF h1 h2 h3 h4]
  obtain out where "sortish_iter ?s [0, 1, 2] rev = Inr out"
    and mx: "\<forall>i\<in>set out. key ?s i \<le> key ?s (hd out)" by blast
  with run have "out = [1, 0, 2]" by simp
  with mx have "key ?s 0 \<le> key ?s 1" and "key ?s 2 \<le> key ?s 1" by simp_all
  with h1 h2 h3 h4 run show ?thesis by (simp only: sampler.simps simp_thms)
qed

text \<open>
  Claim C7. With \<open>1 \<le> N \<le> bs\<close> there is exactly one candidate batch; \<open>__iter__\<close>
  returns without an exception, never calls the shuffle (the result is the same for every
  \<open>shuffle\<close>), and the produced order is that single batch.
\<close>

theorem single_batch_iter:
  assumes "1 \<le> length (data_source s)" and "int (length (data_source s)) \<le> bs s"
    and "mset idxs = mset [0..<length (data_source s)]"
  shows "sortish_iter s idxs shuffle = Inr (sorted_reverse (key s) idxs) \<and>
         candidate_batches s idxs = [sorted_reverse (key s) idxs]"
proof -
  have bs: "1 \<le> bs s" using assms(1,2) by simp
  have b: "0 < nat (bs s)" using bs by simp
  have ne: "idxs \<noteq> []" by (rule perm_nonempty [OF assms(3,1)])
  have len: "length idxs = length (data_source s)"
    using assms(3) by (metis mset_eq_length length_upt diff_zero)
  have le: "length idxs \<le> nat (bs s)" using assms(2) len by simp
  then have "chunked (50 * nat (bs s)) idxs = [idxs]"
    using ne b by (intro chunked_single) simp_all
  then have si: "sort_idx_of s idxs = sorted_reverse (key s) idxs"
    by (simp add: sort_idx_of_def)
  have "sorted_reverse (key s) idxs \<noteq> []"
    using ne by (metis length_sorted_reverse length_0_conv)
  then have ck: "candidate_batches s idxs = [sorted_reverse (key s) idxs]"
    unfolding candidate_batches_def si using b le
    by (intro chunked_single) (simp_all add: length_sorted_reverse)
  from sortish_iter_unfold [OF bs ne perm_in_range [OF assms(3)], of shuffle]
  show ?thesis unfolding ck by simp
qed

theorem single_batch_iter_witness:
  "1 \<le> length demo_source \<and> int (length demo_source) \<le> bs \<lparr>data_source = demo_source, bs = 4\<rparr> \<and>
   mset [2, 0, 1] = mset [0..<length demo_source] \<and>
   sortish_iter \<lparr>data_source = demo_source, bs = 4\<rparr> [2, 0, 1] rev = Inr [2, 0, 1] \<and>
   candidate_batches \<lparr>data_source = demo_source, bs = 4\<rparr> [2, 0, 1] = [[2, 0, 1]]"
proof -
  let ?s = "\<lparr>data_source = demo_source, bs = 4\<rparr>"
  have h1: "1 \<le> length (data_source ?s)" by (simp add: demo_source_def)
  have h2: "int (length (data_source ?s)) \<le> bs ?s" by (simp add: demo_source_def)
  have h3: "mset [2, 0, 1] = mset [0..<length (data_source ?s)]"
    by (simp add: demo_source_def upt_rec)
  have srt: "sorted_reverse (key ?s) [2, 0, 1] = [2, 0, 1]"
    by (simp add: sorted_reverse_def key_def dict_len_def demo_source_def)
  from single_batch_iter [OF h1 h2 h3, of rev] h1 h2 h3
  show ?thesis by (simp only: srt sampler.simps)
qed

text \<open>When the key is the same for all indices, sorting the chunks changes nothing.\<close>

lemma sorted_reverse_same_key:
  assumes "\<forall>x\<in>set xs. f x = c"
  shows "sorted_reverse f xs = xs"
proof -
  have "map f (rev xs) = map (\<lambda>x. c) (rev xs)"
    using assms by (intro map_cong) simp_all
  then have "map f (rev xs) = replicate (length xs) c"
    by (simp add: map_replicate_const)
  then have "sorted (map f (rev xs))" by simp
  then have "sort_key f (rev xs) = rev xs" by (rule sort_key_id_if_sorted)
  then show ?thesis by (simp add: sorted_reverse_def)
qed

lemma sort_idx_of_same_key:
  assumes "1 \<le> bs s" and "\<forall>i\<in>set idxs. key s i = c"
  shows "sort_idx_of s idxs = idxs"
proof -
  let ?M = "50 * nat (bs s)"
  have M: "0 < ?M" using assms(1) by simp
  have "sorted_reverse (key s) ck = ck" if "ck \<in> set (chunked ?M idxs)" for ck
  proof -
    have "set ck \<subseteq> set (concat (chunked ?M idxs))" using that by auto
    then have "set ck \<subseteq> set idxs" by (simp add: concat_chunked [OF M])
    with assms(2) show ?thesis by (intro sorted_reverse_same_key) blast
  qed
  then have "map (sorted_reverse (key s)) (chunked ?M idxs) = chunked ?M idxs"
    by (simp add: map_idI)
  then show ?thesis by (simp add: sort_idx_of_def concat_chunked [OF M])
qed

text \<open>
  Claim C3 (the code departs from it). The chunks are as the claim says, but the sampler
  built by \<open>make_sortish_sampler\<close> sorts each chunk by \<open>len(self.data_source[i])\<close>, and
  \<open>data_source[i]\<close> is the dictionary the tokenizer returned: the key is the number of
  its fields and not the length of the token sequence. When all examples have the same
  fields the sort changes nothing (\<open>sort_idx_of_same_key\<close>). On two examples tokenized
  without padding to three and five tokens both keys are 2, the chunk keeps the order of
  the initial permutation, and the produced order puts the shorter example first; the
  same happens with three examples padded to one width whose masks count 3, 5 and 1
  tokens.
\<close>

theorem sort_key_is_field_count:
  "key (make_sortish_sampler (dataset_init ragged_source ragged_source 1024 56 None) 2) 0 = 2 \<and>
   key (make_sortish_sampler (dataset_init ragged_source ragged_source 1024 56 None) 2) 1 = 2 \<and>
   map_of (ragged_source ! 0) ''input_ids'' = Some [[5, 6, 7]] \<and>
   map_of (ragged_source ! 1) ''input_ids'' = Some [[5, 6, 7, 8, 9]] \<and>
   sort_idx_of (make_sortish_sampler (dataset_init ragged_source ragged_source 1024 56 None) 2)
     [0, 1] = [0, 1] \<and>
   sortish_iter (make_sortish_sampler (dataset_init ragged_source ragged_source 1024 56 None) 2)
     [0, 1] rev = Inr [0, 1] \<and>
   map (key (make_sortish_sampler (dataset_init demo_source demo_source 1024 56 None) 1))
     [0, 1, 2] = [2, 2, 2] \<and>
   map (\<lambda>e. map_of e ''attention_mask'') demo_source
     = [Some [[1, 1, 1, 0, 0]], Some [[1, 1, 1, 1, 1]], Some [[1, 0, 0, 0, 0]]] \<and>
   sortish_iter (make_sortish_sampler (dataset_init demo_source demo_source 1024 56 None) 1)
     [2, 0, 1] (\<lambda>cks. cks) = Inr [2, 0, 1]"
  by (simp add: make_sortish_sampler_def dataset_init_def ragged_source_def demo_source_def
        key_def dict_len_def sort_idx_of_def sortish_iter_def chunked_def sorted_reverse_def
        np_concatenate_def argmax_def upt_rec Let_def)

text \<open>
  Claim C4 as stated fails: the length is the length of the source list, whatever the
  target list is, and a negative \<open>n_obs\<close> cuts from the end.
\<close>

theorem dataset_len_not_min:
  "dataset_len (dataset_init (replicate 3 []) (replicate 2 []) 1024 56 None)
     \<noteq> min (length (replicate 3 ([] :: encoding))) (length (replicate 2 ([] :: encoding))) \<and>
   int (dataset_len (dataset_init (replicate 3 []) (replicate 3 []) 1024 56 (Some (- 1))))
     \<noteq> - 1"
  by (simp add: dataset_len_def dataset_init_def slice_to_def)

text \<open>
  Claim C4, amended. The length of the dataset is the length of the source list when
  \<open>n_obs\<close> is \<open>None\<close>, which is \<open>min(len(source), len(target))\<close> when the two lists have
  the same length; and it is \<open>n_obs\<close> when \<open>0 \<le> n_obs \<le> len(source)\<close>.
\<close>

theorem dataset_len_amended:
  "dataset_len (dataset_init src tgt max_src max_tgt None) = length src \<and>
   (length src = length tgt \<longrightarrow>
      dataset_len (dataset_init src tgt max_src max_tgt None) = min (length src) (length tgt)) \<and>
   (0 \<le> n \<and> n \<le> int (length src) \<longrightarrow>
      int (dataset_len (dataset_init src tgt max_src max_tgt (Some n))) = n)"
  by (auto simp: dataset_len_def dataset_init_def slice_to_def)

theorem dataset_len_amended_witness:
  "length (replicate 3 ([] :: encoding)) = length (replicate 3 ([] :: encoding)) \<and>
   dataset_len (dataset_init (replicate 3 []) (replicate 3 []) 1024 56 None) = 3 \<and>
   dataset_len (dataset_init (replicate 3 []) (replicate 3 []) 1024 56 None)
     = min (length (replicate 3 ([] :: encoding))) (length (replicate 3 ([] :: encoding))) \<and>
   (0::int) \<le> 2 \<and> (2::int) \<le> int (length (replicate 3 ([] :: encoding))) \<and>
   int (dataset_len (dataset_init (replicate 3 []) (replicate 3 []) 1024 56 (Some 2))) = 2"
  using dataset_len_amended [of "replicate 3 []" "replicate 3 []" 1024 56 2]
  by simp

lemma torch_stack_same:
  assumes "ts \<noteq> []" and "\<forall>t\<in>set ts. length t = n"
  shows "torch_stack ts = Inr ts"
  using assms by (cases ts) (auto simp: torch_stack_def list_all_iff)

lemma content_width_le: "content_width pad row \<le> length row"
  unfolding content_width_def
  by (metis length_dropWhile_le length_rev)

lemma row_split:
  "row = rev (dropWhile (\<lambda>x. x = pad) (rev row)) @ rev (takeWhile (\<lambda>x. x = pad) (rev row))"
proof -
  have "rev row = takeWhile (\<lambda>x. x = pad) (rev row) @ dropWhile (\<lambda>x. x = pad) (rev row)"
    by simp
  then have "rev (rev row) = rev (takeWhile (\<lambda>x. x = pad) (rev row) @ dropWhile (\<lambda>x. x = pad) (rev row))"
    by (rule arg_cong)
  then show ?thesis by (simp only: rev_rev_ident rev_append)
qed

lemma drop_content_width:
  "drop (content_width pad row) row = rev (takeWhile (\<lambda>x. x = pad) (rev row))"
proof -
  let ?a = "rev (dropWhile (\<lambda>x. x = pad) (rev row))"
  let ?b = "rev (takeWhile (\<lambda>x. x = pad) (rev row))"
  have "drop (length ?a) (?a @ ?b) = ?b" by simp
  then show ?thesis using row_split [of row pad] by (simp add: content_width_def)
qed

lemma cut_only_pad:
  assumes "content_width pad row \<le> w" and "x \<in> set (drop w row)"
  shows "x = pad"
proof -
  have "set (drop w row) \<subseteq> set (drop (content_width pad row) row)"
    using assms(1) by (rule set_drop_subset_set_drop)
  with assms(2) have "x \<in> set (takeWhile (\<lambda>x. x = pad) (rev row))"
    by (auto simp: drop_content_width)
  then show ?thesis by (rule set_takeWhileD [THEN conjunct2])
qed

lemma last_content_not_pad:
  assumes "0 < content_width pad row"
  shows "row ! (content_width pad row - 1) \<noteq> pad"
proof -
  let ?d = "dropWhile (\<lambda>x. x = pad) (rev row)"
  have ne: "?d \<noteq> []" using assms by (simp add: content_width_def)
  then have "hd ?d \<noteq> pad" by (metis (mono_tags, lifting) hd_dropWhile)
  moreover have "hd ?d = last (rev ?d)" using ne by (simp add: last_rev)
  moreover have "rev ?d = take (content_width pad row) row"
    using row_split [of row pad]
    by (metis append_eq_conv_conj content_width_def length_rev)
  moreover have "last (take (content_width pad row) row) = row ! (content_width pad row - 1)"
  proof -
    have le: "content_width pad row \<le> length row" by (rule content_width_le)
    with assms have "row \<noteq> []" by auto
    with assms have "take (content_width pad row) row \<noteq> []" by simp
    then show ?thesis using assms le by (simp add: last_conv_nth min_absorb2)
  qed
  ultimately show ?thesis by simp
qed

lemma keep_width_ge: "row \<in> set rows \<Longrightarrow> content_width pad row \<le> keep_width pad rows"
  by (induction rows) (auto simp: keep_width_def)

lemma keep_width_attained:
  "keep_width pad rows = 0 \<or> (\<exists>row\<in>set rows. keep_width pad rows = content_width pad row)"
  by (induction rows) (auto simp: keep_width_def max_def)

lemma keep_width_le:
  "\<forall>row\<in>set rows. length row \<le> n \<Longrightarrow> keep_width pad rows \<le> n"
  using keep_width_attained [of pad rows] content_width_le [of pad]
  by (metis le0 le_trans)

lemma content_width_padded:
  assumes "r = [] \<or> last r \<noteq> pad"
  shows "content_width pad (r @ replicate k pad) = length r"
proof -
  have "dropWhile (\<lambda>x. x = pad) (rev (r @ replicate k pad)) = dropWhile (\<lambda>x. x = pad) (rev r)"
    by (simp add: dropWhile_append)
  also have "\<dots> = rev r"
    using assms by (cases "rev r") (auto simp: last_rev hd_rev)
  finally show ?thesis by (simp add: content_width_def)
qed

lemma content_width_padded_le: "content_width pad (r @ replicate k pad) \<le> length r"
proof -
  have "dropWhile (\<lambda>x. x = pad) (rev (r @ replicate k pad)) = dropWhile (\<lambda>x. x = pad) (rev r)"
    by (simp add: dropWhile_append)
  then show ?thesis
    unfolding content_width_def by (metis length_dropWhile_le length_rev)
qed

lemma cut_only_pad_batch:
  assumes "it \<in> set items" and "x \<in> set (drop (keep_width pad (map f items)) (f it))"
  shows "x = pad"
proof -
  have "f it \<in> set (map f items)" using assms(1) by simp
  then have "content_width pad (f it) \<le> keep_width pad (map f items)" by (rule keep_width_ge)
  then show ?thesis using assms(2) by (rule cut_only_pad)
qed

lemma torch_stack_Inr:
  assumes "torch_stack ts = Inr r"
  shows "r = ts" and "ts \<noteq> []" and "\<forall>t\<in>set ts. length t = length (hd ts)"
  using assms by (cases ts; auto simp: torch_stack_def list_all_iff split: if_splits)+

lemma collate_fn_unfold:
  assumes ne: "items \<noteq> []"
    and len: "\<forall>it\<in>set items. length (input_ids it) = L \<and> length (attention_mask it) = L \<and>
                length (decoder_input_ids it) = T"
  shows "collate_fn ds items =
           Inr \<lparr>batched_input_ids =
                  map (\<lambda>it. take (keep_width 1 (map input_ids items)) (input_ids it)) items,
                batched_attention_mask =
                  map (\<lambda>it. take (keep_width 1 (map input_ids items)) (attention_mask it)) items,
                batched_decoder_input_ids =
                  map (\<lambda>it. take (keep_width 1 (map decoder_input_ids items))
                               (decoder_input_ids it)) items\<rparr>"
proof -
  have s1: "torch_stack (map input_ids items) = Inr (map input_ids items)"
    using ne len by (intro torch_stack_same [where n = L]) auto
  have s2: "torch_stack (map attention_mask items) = Inr (map attention_mask items)"
    using ne len by (intro torch_stack_same [where n = L]) auto
  have s3: "torch_stack (map decoder_input_ids items) = Inr (map decoder_input_ids items)"
    using ne len by (intro torch_stack_same [where n = T]) auto
  show ?thesis
    by (simp add: collate_fn_def s1 s2 s3 pad_token_id_def trim_batch_def trim_batch_mask_def
          comp_def)
qed

text \<open>
  Claim C6. For a non-empty batch of items of one source width \<open>L\<close> and one target width
  \<open>T\<close>, \<open>collate_fn\<close> returns every source row and mask row cut to one width \<open>w_src\<close>
  and every target row cut to one width \<open>w_tgt\<close>; only pad tokens (id 1) are cut, and
  the widths are the smallest with that property: the last column kept holds a token
  that is not the pad token in some row. In particular, for two items whose token ids are
  5 and 8 tokens followed by 15 and 12 pad tokens, the last of the 8 not being the pad
  token, the width is 8.
\<close>

theorem collate_fn_trims_to_content:
  assumes "items \<noteq> []"
    and "\<forall>it\<in>set items. length (input_ids it) = L \<and> length (attention_mask it) = L \<and>
           length (decoder_input_ids it) = T"
  shows "\<exists>w_src w_tgt. w_src \<le> L \<and> w_tgt \<le> T \<and>
           collate_fn ds items =
             Inr \<lparr>batched_input_ids = map (\<lambda>it. take w_src (input_ids it)) items,
                  batched_attention_mask = map (\<lambda>it. take w_src (attention_mask it)) items,
                  batched_decoder_input_ids =
                    map (\<lambda>it. take w_tgt (decoder_input_ids it)) items\<rparr> \<and>
           (\<forall>it\<in>set items. \<forall>x\<in>set (drop w_src (input_ids it)). x = 1) \<and>
           (\<forall>it\<in>set items. \<forall>x\<in>set (drop w_tgt (decoder_input_ids it)). x = 1) \<and>
           (w_src = 0 \<or> (\<exists>it\<in>set items. input_ids it ! (w_src - 1) \<noteq> 1)) \<and>
           (w_tgt = 0 \<or> (\<exists>it\<in>set items. decoder_input_ids it ! (w_tgt - 1) \<noteq> 1)) \<and>
           (\<forall>a b r1 r2. items = [a, b] \<and> input_ids a = r1 @ replicate 15 1 \<and>
               input_ids b = r2 @ replicate 12 1 \<and> length r1 = 5 \<and> length r2 = 8 \<and>
               last r2 \<noteq> 1 \<longrightarrow> w_src = 8)"
proof -
  let ?ws = "keep_width 1 (map input_ids items)"
  let ?wt = "keep_width 1 (map decoder_input_ids items)"
  have f1: "?ws \<le> L" using assms(2) by (intro keep_width_le) auto
  have f2: "?wt \<le> T" using assms(2) by (intro keep_width_le) auto
  note f3 = collate_fn_unfold [OF assms, of ds]
  have f4: "\<forall>it\<in>set items. \<forall>x\<in>set (drop ?ws (input_ids it)). x = 1"
  proof (intro ballI)
    fix it x
    assume "it \<in> set items" and "x \<in> set (drop ?ws (input_ids it))"
    then show "x = 1" by (rule cut_only_pad_batch)
  qed
  have f5: "\<forall>it\<in>set items. \<forall>x\<in>set (drop ?wt (decoder_input_ids it)). x = 1"
  proof (intro ballI)
    fix it x
    assume "it \<in> set items" and "x \<in> set (drop ?wt (decoder_input_ids it))"
    then show "x = 1" by (rule cut_only_pad_batch)
  qed
  have f6: "?ws = 0 \<or> (\<exists>it\<in>set items. input_ids it ! (?ws - 1) \<noteq> 1)"
  proof (cases "?ws = 0")
    case False
    with keep_width_attained [of 1 "map input_ids items"]
    obtain it where "it \<in> set items" and "?ws = content_width 1 (input_ids it)" by auto
    with False last_content_not_pad [of 1 "input_ids it"] show ?thesis by auto
  qed simp
  have f7: "?wt = 0 \<or> (\<exists>it\<in>set items. decoder_input_ids it ! (?wt - 1) \<noteq> 1)"
  proof (cases "?wt = 0")
    case False
    with keep_width_attained [of 1 "map decoder_input_ids items"]
    obtain it where "it \<in> set items" and "?wt = content_width 1 (decoder_input_ids it)"
      by auto
    with False last_content_not_pad [of 1 "decoder_input_ids it"] show ?thesis by auto
  qed simp
  have f8: "\<forall>a b r1 r2. items = [a, b] \<and> input_ids a = r1 @ replicate 15 1 \<and>
               input_ids b = r2 @ replicate 12 1 \<and> length r1 = 5 \<and> length r2 = 8 \<and>
               last r2 \<noteq> 1 \<longrightarrow> ?ws = 8"
  proof (intro allI impI, elim conjE)
    fix a b :: item and r1 r2 :: "int list"
    assume h: "items = [a, b]" "input_ids a = r1 @ replicate 15 1"
      "input_ids b = r2 @ replicate 12 1" "length r1 = 5" "length r2 = 8" "last r2 \<noteq> 1"
    have "content_width 1 (input_ids a) \<le> 5"
      using content_width_padded_le [of 1 r1 15] h by simp
    moreover have "content_width 1 (input_ids b) = 8"
      using content_width_padded [of r2 1 12] h by simp
    ultimately show "?ws = 8" using h(1) by (simp add: keep_width_def)
  qed
  show ?thesis
    apply (rule exI [of _ ?ws])
    apply (rule exI [of _ ?wt])
    apply (intro conjI)
           apply (fact f1)
          apply (fact f2)
         apply (fact f3)
        apply (fact f4)
       apply (fact f5)
      apply (fact f6)
     apply (fact f7)
    apply (fact f8)
    done
qed

theorem collate_fn_trims_to_content_witness:
  "padded_items \<noteq> [] \<and>
   list_all (\<lambda>it. length (input_ids it) = 20 \<and> length (attention_mask it) = 20 \<and>
                  length (decoder_input_ids it) = 4) padded_items \<and>
   (\<exists>out. collate_fn (dataset_init [] [] 1024 56 None) padded_items = Inr out \<and>
      map length (batched_input_ids out) = [8, 8] \<and>
      map length (batched_attention_mask out) = [8, 8])"
proof -
  have h1: "padded_items \<noteq> []" by (simp add: padded_items_def)
  have h2: "\<forall>it\<in>set padded_items. length (input_ids it) = 20 \<and>
              length (attention_mask it) = 20 \<and> length (decoder_input_ids it) = 4"
    by (simp add: padded_items_def)
  from collate_fn_trims_to_content [OF h1 h2, of "dataset_init [] [] 1024 56 None"]
  obtain w_src w_tgt where
    res: "collate_fn (dataset_init [] [] 1024 56 None) padded_items =
             Inr \<lparr>batched_input_ids = map (\<lambda>it. take w_src (input_ids it)) padded_items,
                  batched_attention_mask =
                    map (\<lambda>it. take w_src (attention_mask it)) padded_items,
                  batched_decoder_input_ids =
                    map (\<lambda>it. take w_tgt (decoder_input_ids it)) padded_items\<rparr>"
    and part: "\<forall>a b r1 r2. padded_items = [a, b] \<and> input_ids a = r1 @ replicate 15 1 \<and>
               input_ids b = r2 @ replicate 12 1 \<and> length r1 = 5 \<and> length r2 = 8 \<and>
               last r2 \<noteq> 1 \<longrightarrow> w_src = 8"
    by blast
  have w: "w_src = 8"
    by (rule part [rule_format, of "padded_items ! 0" "padded_items ! 1"
          "[10, 11, 12, 13, 14]" "[10, 11, 12, 13, 14, 15, 16, 17]"])
      (simp add: padded_items_def)
  have "map length (map (\<lambda>it. take w_src (input_ids it)) padded_items) = [8, 8]"
    and "map length (map (\<lambda>it. take w_src (attention_mask it)) padded_items) = [8, 8]"
    unfolding w by (simp_all add: padded_items_def)
  with res h1 h2 show ?thesis by (simp add: list_all_iff)
qed

text \<open>
  Claim C10. \<open>collate_fn\<close> trims with the class constant \<open>pad_token_id = 1\<close>: its result
  does not depend on the dataset it is called on (which holds no tokenizer), it is the
  trimming of the stacked tensors with the pad id 1, and rows that were padded with another
  id are not trimmed at all.
\<close>

theorem collate_fn_pad_is_constant:
  "collate_fn ds items = collate_fn ds' items \<and>
   (\<forall>out. collate_fn ds items = Inr out \<longrightarrow>
      (batched_input_ids out, batched_attention_mask out, batched_decoder_input_ids out)
        = trim_seq2seq_batch
            \<lparr>batched_input_ids = map input_ids items,
             batched_attention_mask = map attention_mask items,
             batched_decoder_input_ids = map decoder_input_ids items\<rparr> 1 \<and>
      ((\<exists>it\<in>set items. input_ids it \<noteq> [] \<and> last (input_ids it) \<noteq> 1) \<longrightarrow>
         batched_input_ids out = map input_ids items))"
proof (intro conjI allI impI)
  show "collate_fn ds items = collate_fn ds' items" by (simp add: collate_fn_def)
next
  fix out
  assume res: "collate_fn ds items = Inr out"
  then obtain a b c where st: "torch_stack (map input_ids items) = Inr a"
    "torch_stack (map attention_mask items) = Inr b"
    "torch_stack (map decoder_input_ids items) = Inr c"
    by (auto simp: collate_fn_def split: sum.splits)
  have eqs: "a = map input_ids items" "b = map attention_mask items"
    "c = map decoder_input_ids items"
    using st by (simp_all add: torch_stack_Inr(1))
  from res show "(batched_input_ids out, batched_attention_mask out, batched_decoder_input_ids out)
        = trim_seq2seq_batch
            \<lparr>batched_input_ids = map input_ids items,
             batched_attention_mask = map attention_mask items,
             batched_decoder_input_ids = map decoder_input_ids items\<rparr> 1"
    unfolding collate_fn_def st eqs
    by (auto simp: trim_seq2seq_batch_def pad_token_id_def trim_batch_mask_def Let_def)
next
  fix out
  assume res: "collate_fn ds items = Inr out"
    and ex: "\<exists>it\<in>set items. input_ids it \<noteq> [] \<and> last (input_ids it) \<noteq> 1"
  from res obtain ids where st: "torch_stack (map input_ids items) = Inr ids"
    by (auto simp: collate_fn_def split: sum.splits)
  note same = torch_stack_Inr(3) [OF st]
  let ?n = "length (hd (map input_ids items))"
  let ?w = "keep_width 1 (map input_ids items)"
  from ex obtain it where it: "it \<in> set items" "input_ids it \<noteq> []" "last (input_ids it) \<noteq> 1"
    by blast
  have "content_width 1 (input_ids it @ replicate 0 1) = length (input_ids it)"
    using it(3) by (intro content_width_padded) simp
  then have "content_width 1 (input_ids it) = ?n" using same it(1) by simp
  moreover have "content_width 1 (input_ids it) \<le> ?w" using it(1) by (intro keep_width_ge) simp
  ultimately have "\<forall>row\<in>set (map input_ids items). take ?w row = row" using same by simp
  then have "map (take ?w) (map input_ids items) = map input_ids items"
    by (simp add: map_idI)
  moreover from res have "batched_input_ids out = map (take ?w) (map input_ids items)"
    by (auto simp: collate_fn_def pad_token_id_def trim_batch_mask_def Let_def
          split: sum.splits dest: torch_stack_Inr(1))
  ultimately show "batched_input_ids out = map input_ids items" by simp
qed

theorem collate_fn_pad_is_constant_witness:
  "collate_fn (dataset_init [] [] 1024 56 None) zero_padded_items
     = Inr \<lparr>batched_input_ids = [[5, 6, 0, 0], [7, 0, 0, 0]],
            batched_attention_mask = [[1, 1, 0, 0], [1, 0, 0, 0]],
            batched_decoder_input_ids = [[7, 0, 0], [8, 9, 0]]\<rparr> \<and>
   last (input_ids (hd zero_padded_items)) \<noteq> 1 \<and>
   batched_input_ids
     \<lparr>batched_input_ids = [[5, 6, 0, 0], [7, 0, 0, 0]],
      batched_attention_mask = [[1, 1, 0, 0], [1, 0, 0, 0]],
      batched_decoder_input_ids = [[7, 0, 0], [8, 9, 0]]\<rparr>
     = map input_ids zero_padded_items"
proof -
  let ?ds = "dataset_init [] [] 1024 56 None"
  let ?out = "\<lparr>batched_input_ids = [[5, 6, 0, 0], [7, 0, 0, 0]],
               batched_attention_mask = [[1, 1, 0, 0], [1, 0, 0, 0]],
               batched_decoder_input_ids = [[7, 0, 0], [8, 9, 0]]\<rparr>"
  have run: "collate_fn ?ds zero_padded_items = Inr ?out"
    by (simp add: collate_fn_def zero_padded_items_def torch_stack_def pad_token_id_def
          trim_batch_def trim_batch_mask_def keep_width_def content_width_def)
  have ex: "\<exists>it\<in>set zero_padded_items. input_ids it \<noteq> [] \<and> last (input_ids it) \<noteq> 1"
    by (simp add: zero_padded_items_def)
  from collate_fn_pad_is_constant [of ?ds zero_padded_items ?ds] run ex
  have "batched_input_ids ?out = map input_ids zero_padded_items" by blast
  moreover have "last (input_ids (hd zero_padded_items)) \<noteq> 1"
    by (simp add: zero_padded_items_def)
  ultimately show ?thesis using run by blast
qed

lemma tokenize_lines_ok:
  assumes "\<forall>t\<in>set lns. batch_encode_plus tk [t] ml pad True rt = Inr (enc t)"
  shows "tokenize_lines tk ml pad rt lns acc w =
           (Inr (acc @ map enc lns), w\<lparr>tok_log := tok_log w @ map (\<lambda>t. (t, ml)) lns\<rparr>)"
  using assms
proof (induction lns arbitrary: acc w)
  case Nil
  show ?case by simp
next
  case (Cons t lns)
  from Cons.prems have t: "batch_encode_plus tk [t] ml pad True rt = Inr (enc t)"
    and rest: "\<forall>t\<in>set lns. batch_encode_plus tk [t] ml pad True rt = Inr (enc t)" by simp_all
  show ?case by (simp add: t Cons.IH [OF rest])
qed

lemma encode_file_tokenizes:
  assumes fresh: "overwrite_cache \<or> files w (cache_path_of data_path tok_name max_length) = None"
    and rd_txt: "files w data_path = Some (TextFile content)"
    and tok: "\<forall>l\<in>set (readlines content).
                batch_encode_plus tk [prefix @ strip l] max_length pad True rt = Inr (enc l)"
  shows "encode_file tk data_path max_length pad rt overwrite_cache prefix tok_name w =
           (Inr (map enc (readlines content)),
            w\<lparr>tok_log := tok_log w @
                  map (\<lambda>l. (prefix @ strip l, max_length)) (readlines content),
               files := (files w)(cache_path_of data_path tok_name max_length \<mapsto>
                          PickleFile (map enc (readlines content)))\<rparr>)"
proof -
  let ?lns = "map (\<lambda>text. prefix @ text) (map strip (readlines content))"
  define enc' where "enc' = (\<lambda>t. SOME e. batch_encode_plus tk [t] max_length pad True rt = Inr e)"
  have tok': "\<forall>t\<in>set ?lns. batch_encode_plus tk [t] max_length pad True rt = Inr (enc' t)"
    using tok unfolding enc'_def by (auto intro: someI)
  have same: "map enc' ?lns = map enc (readlines content)"
    using tok tok' by (auto simp: comp_def)
  have log: "map (\<lambda>t. (t, max_length)) ?lns
             = map (\<lambda>l. (prefix @ strip l, max_length)) (readlines content)"
    by (simp add: comp_def)
  have cond: "\<not> (\<not> overwrite_cache \<and> files w (cache_path_of data_path tok_name max_length) \<noteq> None)"
    using fresh by auto
  have rd: "open_readlines w data_path = Inr (readlines content)"
    by (simp add: open_readlines_def rd_txt)
  show ?thesis
    unfolding encode_file_def Let_def
    by (simp only: cond if_False rd sum.case tokenize_lines_ok [OF tok'] same log
          append_Nil prod.case torch_save_def)
       simp
qed

lemma source_target_differ:
  "path_join d (tp @ ''.source'' @ r1) \<noteq> path_join d (tp @ ''.target'' @ r2)"
  by (cases tp) (auto simp: path_join_def)

lemma path_join_append: "b \<noteq> [] \<Longrightarrow> path_join a b @ s = path_join a (b @ s)"
  by (cases b) (simp_all add: path_join_def)

lemma source_cache_is_join:
  "cache_path_of (source_path d tp) tn ml
     = path_join d (tp @ ''.source'' @ ''_'' @ tn @ str_int ml @ ''.pkl'')"
  using path_join_append [of "tp @ ''.source''" d]
  by (simp add: cache_path_of_def source_path_def)

lemma target_path_is_join:
  "\<exists>r. target_path d tp sfx = path_join d (tp @ ''.target'' @ r)"
  by (cases "tp = ''train''") (auto simp: target_path_def intro: exI [of _ "[]"])

lemma target_cache_is_join:
  "\<exists>r. cache_path_of (target_path d tp sfx) tn ml = path_join d (tp @ ''.target'' @ r)"
proof (cases "tp = ''train''")
  case True
  have "cache_path_of (target_path d tp sfx) tn ml
        = path_join d (tp @ ''.target'' @ (sfx @ ''_'' @ tn @ str_int ml @ ''.pkl''))"
    using True path_join_append [of "tp @ ''.target'' @ sfx" d]
    by (simp add: cache_path_of_def target_path_def)
  then show ?thesis by blast
next
  case False
  have "cache_path_of (target_path d tp sfx) tn ml
        = path_join d (tp @ ''.target'' @ (''_'' @ tn @ str_int ml @ ''.pkl''))"
    using False path_join_append [of "tp @ ''.target''" d]
    by (simp add: cache_path_of_def target_path_def)
  then show ?thesis by blast
qed

lemma source_cache_not_target:
  "cache_path_of (source_path d tp) tn ml \<noteq> target_path d tp sfx"
  "cache_path_of (source_path d tp) tn ml \<noteq> cache_path_of (target_path d tp sfx) tn' ml'"
proof -
  from target_path_is_join [of d tp sfx] obtain r
    where "target_path d tp sfx = path_join d (tp @ ''.target'' @ r)" by blast
  then show "cache_path_of (source_path d tp) tn ml \<noteq> target_path d tp sfx"
    by (simp only: source_cache_is_join source_target_differ not_False_eq_True)
  from target_cache_is_join [of d tp sfx tn' ml'] obtain r'
    where "cache_path_of (target_path d tp sfx) tn' ml' = path_join d (tp @ ''.target'' @ r')"
    by blast
  then show "cache_path_of (source_path d tp) tn ml
               \<noteq> cache_path_of (target_path d tp sfx) tn' ml'"
    by (simp only: source_cache_is_join source_target_differ not_False_eq_True)
qed

lemma tok_log_demo_world: "tok_log demo_world = []"
  by (simp add: demo_world_def)

lemmas run_simps =
  demo_world_def char_tokenizer_def char_encode_def char_ids_def cache_path_of_def str_int_def
  str_nat.simps readlines_def strip_def is_space_def source_path_def target_path_def
  path_join_def tok_name_of_def

text \<open>
  Claim C8. When the cache file does not exist, or \<open>overwrite_cache\<close> is set, and the data
  file is a text file on whose lines the tokenizer succeeds, \<open>encode_file\<close> returns one
  example for each line of the file, in the order of the file: what the tokenizer returns
  for the list holding the prefix followed by the stripped line, called with the maximal
  length and the padding flag (which is \<open>True\<close> unless the caller says otherwise). The
  same list is in the cache file afterwards, and the tokenizer was called once for each
  line.
\<close>

theorem encode_file_one_example_per_line:
  assumes "overwrite_cache \<or> files w (cache_path_of data_path tok_name max_length) = None"
    and "files w data_path = Some (TextFile content)"
    and "\<forall>l\<in>set (readlines content).
           batch_encode_plus tk [prefix @ strip l] max_length pad True rt = Inr (enc l)"
  shows "encode_file tk data_path max_length pad rt overwrite_cache prefix tok_name w =
           (Inr (map enc (readlines content)),
            w\<lparr>tok_log := tok_log w @
                  map (\<lambda>l. (prefix @ strip l, max_length)) (readlines content),
               files := (files w)(cache_path_of data_path tok_name max_length \<mapsto>
                          PickleFile (map enc (readlines content)))\<rparr>)"
  using assms by (rule encode_file_tokenizes)

theorem encode_file_one_example_per_line_witness:
  "files demo_world (cache_path_of ''data/val.source'' ''T5'' 4) = None \<and>
   files demo_world ''data/val.source'' = Some (TextFile ''ab \<newline> c\<newline>'') \<and>
   fst (encode_file (char_tokenizer False) ''data/val.source'' 4 True ''pt'' False
          ''summarize: '' ''T5'' demo_world)
     = Inr [char_encode [''summarize: ab''] 4 True, char_encode [''summarize: c''] 4 True] \<and>
   tok_log (snd (encode_file (char_tokenizer False) ''data/val.source'' 4 True ''pt'' False
          ''summarize: '' ''T5'' demo_world))
     = [(''summarize: ab'', 4), (''summarize: c'', 4)] \<and>
   files (snd (encode_file (char_tokenizer False) ''data/val.source'' 4 True ''pt'' False
          ''summarize: '' ''T5'' demo_world)) ''data/val.source_T54.pkl''
     = Some (PickleFile
         [char_encode [''summarize: ab''] 4 True, char_encode [''summarize: c''] 4 True])"
proof -
  have h1: "False \<or> files demo_world (cache_path_of ''data/val.source'' ''T5'' 4) = None"
    by (simp add: demo_world_def cache_path_of_def str_int_def str_nat.simps)
  have h2: "files demo_world ''data/val.source'' = Some (TextFile ''ab \<newline> c\<newline>'')"
    by (simp add: demo_world_def)
  have h3: "\<forall>l\<in>set (readlines ''ab \<newline> c\<newline>'').
      batch_encode_plus (char_tokenizer False) [''summarize: '' @ strip l] 4 True True ''pt''
        = Inr (char_encode [''summarize: '' @ strip l] 4 True)"
    by (simp add: char_tokenizer_def)
  have lines: "map strip (readlines ''ab \<newline> c\<newline>'') = [''ab'', ''c'']"
    by (simp add: readlines_def strip_def is_space_def)
  have cp: "cache_path_of ''data/val.source'' ''T5'' 4 = ''data/val.source_T54.pkl''"
    by (simp add: cache_path_of_def str_int_def str_nat.simps)
  from lines have l2: "map (\<lambda>l. char_encode [''summarize: '' @ strip l] 4 True)
                         (readlines ''ab \<newline> c\<newline>'')
                       = [char_encode [''summarize: ab''] 4 True,
                          char_encode [''summarize: c''] 4 True]"
    and l3: "map (\<lambda>l. (''summarize: '' @ strip l, 4::int)) (readlines ''ab \<newline> c\<newline>'')
             = [(''summarize: ab'', 4), (''summarize: c'', 4)]"
    by (simp_all add: readlines_def)
  from encode_file_one_example_per_line [OF h1 h2 h3, unfolded l2 l3] h1 h2
  show ?thesis by (simp add: cp tok_log_demo_world)
qed

text \<open>
  Claim C5. After a call of \<open>encode_file\<close> with \<open>overwrite_cache=False\<close> that returned
  a list of examples, a second call with the same arguments returns the same list and
  leaves the world as it is: the tokenizer is not called again, and the list is what the
  file at \<open>\<langle>data_path\<rangle>_\<langle>tok_name\<rangle>\<langle>max_length\<rangle>.pkl\<close> holds.
\<close>

theorem encode_file_second_call_cached:
  assumes "encode_file tk data_path max_length pad rt False prefix tok_name w = (Inr xs, w1)"
  shows "encode_file tk data_path max_length pad rt False prefix tok_name w1 = (Inr xs, w1) \<and>
         tok_log (snd (encode_file tk data_path max_length pad rt False prefix tok_name w1))
           = tok_log w1 \<and>
         files w1 (data_path @ ''_'' @ tok_name @ str_int max_length @ ''.pkl'')
           = Some (PickleFile xs)"
proof -
  let ?c = "cache_path_of data_path tok_name max_length"
  have cached: "files w1 ?c = Some (PickleFile xs)"
  proof (cases "files w ?c = None")
    case True
    with assms obtain w' where "w1 = torch_save xs ?c w'"
      by (auto simp: encode_file_def Let_def split: sum.splits prod.splits)
    then show ?thesis by (simp add: torch_save_def)
  next
    case False
    with assms have "torch_load w ?c = Inr xs" and "w1 = w"
      by (auto simp: encode_file_def)
    then show ?thesis
      by (auto simp: torch_load_def split: option.splits fs_file.splits)
  qed
  then have "torch_load w1 ?c = Inr xs" by (simp add: torch_load_def)
  with cached have "encode_file tk data_path max_length pad rt False prefix tok_name w1
                    = (Inr xs, w1)"
    by (simp add: encode_file_def)
  with cached show ?thesis by (simp add: cache_path_of_def)
qed

theorem encode_file_second_call_cached_witness:
  "fst (encode_file (char_tokenizer False) ''data/val.source'' 4 True ''pt'' False
          ''summarize: '' ''T5'' demo_world)
     = Inr [char_encode [''summarize: ab''] 4 True, char_encode [''summarize: c''] 4 True] \<and>
   fst (encode_file (char_tokenizer False) ''data/val.source'' 4 True ''pt'' False
          ''summarize: '' ''T5''
          (snd (encode_file (char_tokenizer False) ''data/val.source'' 4 True ''pt'' False
                  ''summarize: '' ''T5'' demo_world)))
     = Inr [char_encode [''summarize: ab''] 4 True, char_encode [''summarize: c''] 4 True] \<and>
   tok_log (snd (encode_file (char_tokenizer False) ''data/val.source'' 4 True ''pt'' False
          ''summarize: '' ''T5''
          (snd (encode_file (char_tokenizer False) ''data/val.source'' 4 True ''pt'' False
                  ''summarize: '' ''T5'' demo_world))))
     = [(''summarize: ab'', 4), (''summarize: c'', 4)]"
proof -
  let ?call = "encode_file (char_tokenizer False) ''data/val.source'' 4 True ''pt'' False
                 ''summarize: '' ''T5''"
  let ?xs = "[char_encode [''summarize: ab''] 4 True, char_encode [''summarize: c''] 4 True]"
  have h1: "False \<or> files demo_world (cache_path_of ''data/val.source'' ''T5'' 4) = None"
    by (simp add: demo_world_def cache_path_of_def str_int_def str_nat.simps)
  have h2: "files demo_world ''data/val.source'' = Some (TextFile ''ab \<newline> c\<newline>'')"
    by (simp add: demo_world_def)
  have h3: "\<forall>l\<in>set (readlines ''ab \<newline> c\<newline>'').
      batch_encode_plus (char_tokenizer False) [''summarize: '' @ strip l] 4 True True ''pt''
        = Inr (char_encode [''summarize: '' @ strip l] 4 True)"
    by (simp add: char_tokenizer_def)
  have lines: "map strip (readlines ''ab \<newline> c\<newline>'') = [''ab'', ''c'']"
    by (simp add: readlines_def strip_def is_space_def)
  from lines have l2: "map (\<lambda>l. char_encode [''summarize: '' @ strip l] 4 True)
                         (readlines ''ab \<newline> c\<newline>'') = ?xs"
    and l3: "map (\<lambda>l. (''summarize: '' @ strip l, 4::int)) (readlines ''ab \<newline> c\<newline>'')
             = [(''summarize: ab'', 4), (''summarize: c'', 4)]"
    by (simp_all add: readlines_def)
  have first: "fst (?call demo_world) = Inr ?xs"
    and log: "tok_log (snd (?call demo_world)) = [(''summarize: ab'', 4), (''summarize: c'', 4)]"
    using encode_file_tokenizes [OF h1 h2 h3, unfolded l2 l3]
    by (simp_all add: tok_log_demo_world)
  then have "?call demo_world = (Inr ?xs, snd (?call demo_world))"
    by (simp add: prod_eq_iff)
  from encode_file_second_call_cached [OF this] first log
  show ?thesis by simp
qed

lemma from_raw_data_eq:
  "from_raw_data tk data_dir type_path max_src max_tgt n_obs overwrite_cache tgt_suffix w =
     (case encode_file tk (source_path data_dir type_path) max_src True ''pt'' overwrite_cache
             (if is_bart tk then [] else ''summarize: '') (tok_name_of tk) w of
        (Inl e, w1) \<Rightarrow> (Inl e, w1)
      | (Inr src, w1) \<Rightarrow>
          (case encode_file tk (target_path data_dir type_path tgt_suffix) max_tgt True ''pt''
                  overwrite_cache [] (tok_name_of tk) w1 of
             (Inl e, w2) \<Rightarrow> (Inl e, w2)
           | (Inr tgt, w2) \<Rightarrow> (Inr (dataset_init src tgt max_src max_tgt n_obs), w2)))"
  by (cases "is_bart tk")
    (simp_all add: from_raw_data_def tok_name_of_def source_path_def target_path_def
       T5_PREFIX_def Let_def cong: prod.case_cong sum.case_cong)

text \<open>
  Claim C9. \<open>from_raw_data\<close> gives the tokenizer the source lines with the prefix
  \<open>summarize: \<close> when the tokenizer is not a \<open>BartTokenizer\<close> (and without a prefix when
  it is one), and the target lines without a prefix for every tokenizer. This is what the
  tokenizer is called on, and what the examples of the dataset are made of, when the files
  are encoded (no cache file, or \<open>overwrite_cache\<close>) and the tokenizer succeeds.
\<close>

theorem from_raw_data_prefix_on_source_only:
  assumes "overwrite_cache \<or>
           (files w (cache_path_of (source_path data_dir type_path) (tok_name_of tk) max_src)
              = None \<and>
            files w (cache_path_of (target_path data_dir type_path tgt_suffix)
                       (tok_name_of tk) max_tgt) = None)"
    and "files w (source_path data_dir type_path) = Some (TextFile src_text)"
    and "files w (target_path data_dir type_path tgt_suffix) = Some (TextFile tgt_text)"
    and "\<forall>t ml. batch_encode_plus tk [t] ml True True ''pt'' = Inr (enc t ml)"
  shows "\<exists>w'. from_raw_data tk data_dir type_path max_src max_tgt n_obs overwrite_cache
                 tgt_suffix w
               = (Inr (dataset_init
                        (map (\<lambda>l. enc ((if is_bart tk then [] else ''summarize: '') @ strip l)
                                     max_src) (readlines src_text))
                        (map (\<lambda>l. enc (strip l) max_tgt) (readlines tgt_text))
                        max_src max_tgt n_obs), w') \<and>
              tok_log w' = tok_log w @
                map (\<lambda>l. ((if is_bart tk then [] else ''summarize: '') @ strip l, max_src))
                  (readlines src_text) @
                map (\<lambda>l. (strip l, max_tgt)) (readlines tgt_text)"
proof -
  let ?pfx = "if is_bart tk then [] else ''summarize: ''"
  let ?sp = "source_path data_dir type_path"
  let ?tp = "target_path data_dir type_path tgt_suffix"
  let ?sc = "cache_path_of ?sp (tok_name_of tk) max_src"
  let ?tc = "cache_path_of ?tp (tok_name_of tk) max_tgt"
  let ?src = "map (\<lambda>l. enc (?pfx @ strip l) max_src) (readlines src_text)"
  let ?tgt = "map (\<lambda>l. enc (strip l) max_tgt) (readlines tgt_text)"
  let ?w1 = "w\<lparr>tok_log := tok_log w @ map (\<lambda>l. (?pfx @ strip l, max_src)) (readlines src_text),
               files := (files w)(?sc \<mapsto> PickleFile ?src)\<rparr>"
  let ?w2 = "?w1\<lparr>tok_log := tok_log ?w1 @ map (\<lambda>l. ([] @ strip l, max_tgt)) (readlines tgt_text),
               files := (files ?w1)(?tc \<mapsto> PickleFile ?tgt)\<rparr>"
  have fresh1: "overwrite_cache \<or> files w ?sc = None" using assms(1) by auto
  have tok1: "\<forall>l\<in>set (readlines src_text).
      batch_encode_plus tk [?pfx @ strip l] max_src True True ''pt''
        = Inr (enc (?pfx @ strip l) max_src)"
    using assms(4) by blast
  have first: "encode_file tk ?sp max_src True ''pt'' overwrite_cache ?pfx (tok_name_of tk) w
               = (Inr ?src, ?w1)"
    by (rule encode_file_tokenizes [OF fresh1 assms(2) tok1])
  have ne1: "?sc \<noteq> ?tp" and ne2: "?sc \<noteq> ?tc"
    by (rule source_cache_not_target)+
  have fresh2: "overwrite_cache \<or> files ?w1 ?tc = None"
    using assms(1) ne2 by auto
  have txt2: "files ?w1 ?tp = Some (TextFile tgt_text)"
    using assms(3) ne1 by auto
  have tok2: "\<forall>l\<in>set (readlines tgt_text).
      batch_encode_plus tk [[] @ strip l] max_tgt True True ''pt'' = Inr (enc (strip l) max_tgt)"
    using assms(4) by simp
  have second: "encode_file tk ?tp max_tgt True ''pt'' overwrite_cache [] (tok_name_of tk) ?w1
               = (Inr ?tgt, ?w2)"
    by (rule encode_file_tokenizes [OF fresh2 txt2 tok2])
  have "from_raw_data tk data_dir type_path max_src max_tgt n_obs overwrite_cache tgt_suffix w
        = (Inr (dataset_init ?src ?tgt max_src max_tgt n_obs), ?w2)"
    by (simp only: from_raw_data_eq first second prod.case sum.case)
  moreover have "tok_log ?w2 = tok_log w @
                map (\<lambda>l. (?pfx @ strip l, max_src)) (readlines src_text) @
                map (\<lambda>l. (strip l, max_tgt)) (readlines tgt_text)"
    by simp
  ultimately show ?thesis by blast
qed

theorem from_raw_data_prefix_on_source_only_witness:
  "files demo_world (source_path ''data'' ''val'') = Some (TextFile ''ab \<newline> c\<newline>'') \<and>
   files demo_world (target_path ''data'' ''val'' []) = Some (TextFile ''x\<newline>y\<newline>'') \<and>
   fst (from_raw_data (char_tokenizer False) ''data'' ''val'' 4 3 None False [] demo_world)
     = Inr (dataset_init
              [char_encode [''summarize: ab''] 4 True, char_encode [''summarize: c''] 4 True]
              [char_encode [''x''] 3 True, char_encode [''y''] 3 True] 4 3 None) \<and>
   tok_log (snd (from_raw_data (char_tokenizer False) ''data'' ''val'' 4 3 None False []
                   demo_world))
     = [(''summarize: ab'', 4), (''summarize: c'', 4), (''x'', 3), (''y'', 3)]"
proof -
  let ?tk = "char_tokenizer False"
  have h1: "False \<or>
      (files demo_world (cache_path_of (source_path ''data'' ''val'') (tok_name_of ?tk) 4) = None \<and>
       files demo_world (cache_path_of (target_path ''data'' ''val'' []) (tok_name_of ?tk) 3)
         = None)"
    by (simp add: run_simps)
  have h2: "files demo_world (source_path ''data'' ''val'') = Some (TextFile ''ab \<newline> c\<newline>'')"
    by (simp add: run_simps)
  have h3: "files demo_world (target_path ''data'' ''val'' []) = Some (TextFile ''x\<newline>y\<newline>'')"
    by (simp add: run_simps)
  have h4: "\<forall>t ml. batch_encode_plus ?tk [t] ml True True ''pt'' = Inr (char_encode [t] ml True)"
    by (simp add: char_tokenizer_def)
  have nb: "is_bart ?tk = False" by (simp add: char_tokenizer_def)
  have l1: "map strip (readlines ''ab \<newline> c\<newline>'') = [''ab'', ''c'']"
    and l2: "map strip (readlines ''x\<newline>y\<newline>'') = [''x'', ''y'']"
    by (simp_all add: readlines_def strip_def is_space_def)
  have m1: "map (\<lambda>l. char_encode [''summarize: '' @ strip l] 4 True) (readlines ''ab \<newline> c\<newline>'')
            = map (\<lambda>t. char_encode [''summarize: '' @ t] 4 True) (map strip (readlines ''ab \<newline> c\<newline>''))"
    and m2: "map (\<lambda>l. char_encode [strip l] 3 True) (readlines ''x\<newline>y\<newline>'')
            = map (\<lambda>t. char_encode [t] 3 True) (map strip (readlines ''x\<newline>y\<newline>''))"
    and m3: "map (\<lambda>l. (''summarize: '' @ strip l, 4::int)) (readlines ''ab \<newline> c\<newline>'')
            = map (\<lambda>t. (''summarize: '' @ t, 4)) (map strip (readlines ''ab \<newline> c\<newline>''))"
    and m4: "map (\<lambda>l. (strip l, 3::int)) (readlines ''x\<newline>y\<newline>'')
            = map (\<lambda>t. (t, 3)) (map strip (readlines ''x\<newline>y\<newline>''))"
    by (simp_all only: map_map comp_def)
  from from_raw_data_prefix_on_source_only [OF h1 h2 h3 h4, where n_obs = None]
  obtain w' where "from_raw_data ?tk ''data'' ''val'' 4 3 None False [] demo_world
      = (Inr (dataset_init
              [char_encode [''summarize: ab''] 4 True, char_encode [''summarize: c''] 4 True]
              [char_encode [''x''] 3 True, char_encode [''y''] 3 True] 4 3 None), w')"
    and "tok_log w' = [(''summarize: ab'', 4), (''summarize: c'', 4), (''x'', 3), (''y'', 3)]"
    unfolding nb if_False m1 m2 m3 m4 l1 l2 by (auto simp: demo_world_def)
  with h2 h3 show ?thesis by simp
qed

end
